theory Spec2Isabelle
  imports Main "HOL-Library.Char_ord" "HOL-Library.List_Lexorder" "HOL-Library.Multiset"
begin

section \<open>Errors and the verification oracle\<close>

text \<open>
  The exceptions of the Python source that a model function can end with.
  \<open>ZeroDivisionError\<close> comes from \<open>//\<close> and \<open>%\<close>, \<open>ValueError\<close> from \<open>int()\<close>, from
  \<open>Pool(processes=n)\<close> with \<open>n < 1\<close> and from the explicit \<open>raise\<close> of \<open>parse_shadow_file\<close>,
  \<open>KeyError\<close> from the lookup of a key that a dictionary does not have.
\<close>

datatype error = ZeroDivisionError | ValueError | KeyError

text \<open>
  \<open>bcrypt.checkpw\<close> is an external library call. It is a parameter of the model: given a
  candidate word and the full hash it answers \<open>Some b\<close>, or \<open>None\<close> when it raises.
\<close>

type_synonym verifier = "string \<Rightarrow> string \<Rightarrow> bool option"

text \<open>\<open>check_password_checkpw\<close>: an exception of the oracle counts as no match.\<close>

definition check_password_checkpw :: "verifier \<Rightarrow> string \<Rightarrow> string \<Rightarrow> bool" where
  "check_password_checkpw checkpw password full_hash =
     (case checkpw password full_hash of Some b \<Rightarrow> b | None \<Rightarrow> False)"

section \<open>The parallel work distributor\<close>

text \<open>Python's \<open>xs[start:end]\<close> for indices that are not negative.\<close>

definition slice :: "'a list \<Rightarrow> nat \<Rightarrow> nat \<Rightarrow> 'a list" where
  "slice xs start stop = take (stop - start) (drop start xs)"

text \<open>
  The chunk ranges built by the first loop of \<open>crack_user_parallel\<close>, for a corpus of
  \<open>len\<close> words and \<open>num_processes \<ge> 1\<close> workers: the pairs \<open>(start, end)\<close> of the slices
  that are appended to \<open>args_list\<close>.
\<close>

definition chunk_size_of :: "nat \<Rightarrow> nat \<Rightarrow> nat" where
  "chunk_size_of len num_processes =
     (if len div num_processes = 0 then 1 else len div num_processes)"

definition chunk_range :: "nat \<Rightarrow> nat \<Rightarrow> nat \<Rightarrow> (nat \<times> nat) list" where
  "chunk_range len num_processes i =
     (let chunk_size = chunk_size_of len num_processes;
          start = i * chunk_size;
          stop = (if i < num_processes - 1 then start + chunk_size else len)
      in if start < len then [(start, stop)] else [])"

definition chunk_ranges :: "nat \<Rightarrow> nat \<Rightarrow> (nat \<times> nat) list" where
  "chunk_ranges len num_processes =
     concat (map (chunk_range len num_processes) [0..<num_processes])"

text \<open>
  \<open>crack_worker_chunk\<close>: the worker scans its chunk in order; \<open>i\<close> is the counter of
  \<open>enumerate\<close>. An exception of the oracle is swallowed (\<open>except: pass\<close>) and the scan goes on.
\<close>

fun crack_worker_scan ::
  "verifier \<Rightarrow> string \<Rightarrow> nat \<Rightarrow> nat \<Rightarrow> string list \<Rightarrow> (string \<times> nat) option" where
  "crack_worker_scan checkpw full_hash start_index i [] = None"
| "crack_worker_scan checkpw full_hash start_index i (word # rest) =
     (if checkpw word full_hash = Some True then Some (word, start_index + i)
      else crack_worker_scan checkpw full_hash start_index (Suc i) rest)"

definition crack_worker_chunk ::
  "verifier \<Rightarrow> string list \<times> string \<times> nat \<Rightarrow> (string \<times> nat) option" where
  "crack_worker_chunk checkpw args =
     (case args of (word_chunk, full_hash, start_index) \<Rightarrow>
        crack_worker_scan checkpw full_hash start_index 0 word_chunk)"

text \<open>The argument tuples \<open>(word_list[start:end], full_hash, start)\<close>, one per chunk.\<close>

definition args_list ::
  "string \<Rightarrow> string list \<Rightarrow> nat \<Rightarrow> (string list \<times> string \<times> nat) list" where
  "args_list full_hash word_list num_processes =
     map (\<lambda>(start, stop). (slice word_list start stop, full_hash, start))
       (chunk_ranges (length word_list) num_processes)"

text \<open>
  The last loop of \<open>crack_user_parallel\<close>: the first result that is not \<open>None\<close>, in the
  order of \<open>args_list\<close> (\<open>pool.map\<close> returns its results in the order of its arguments),
  with the index turned into an attempt count. The elapsed time is left out of the model.
\<close>

fun first_result :: "(string \<times> nat) option list \<Rightarrow> (string \<times> nat) option" where
  "first_result [] = None"
| "first_result (None # results) = first_result results"
| "first_result (Some (password, word_idx) # results) = Some (password, word_idx + 1)"

text \<open>
  \<open>crack_user_parallel\<close>. \<open>len(word_list) // 0\<close> raises, and so does a pool of fewer than
  one process (no chunk is built before, the range of the loop being empty).
\<close>

definition crack_user_parallel ::
  "verifier \<Rightarrow> string \<Rightarrow> string \<Rightarrow> string list \<Rightarrow> int \<Rightarrow> error + (string \<times> nat) option" where
  "crack_user_parallel checkpw user full_hash word_list num_processes =
     (if num_processes = 0 then Inl ZeroDivisionError
      else if num_processes < 0 then Inl ValueError
      else Inr (first_result (map (crack_worker_chunk checkpw)
                  (args_list full_hash word_list (nat num_processes)))))"

section \<open>The single-core cracker\<close>

text \<open>
  \<open>crack_single_user\<close>. The progress line is printed when \<open>i > 0 and i % progress_interval == 0\<close>;
  the print is not modelled, the division by a zero interval is.
\<close>

fun crack_single_scan ::
  "verifier \<Rightarrow> string \<Rightarrow> int \<Rightarrow> nat \<Rightarrow> string list \<Rightarrow> error + (string \<times> nat) option" where
  "crack_single_scan checkpw full_hash progress_interval i [] = Inr None"
| "crack_single_scan checkpw full_hash progress_interval i (word # rest) =
     (if i > 0 \<and> progress_interval = 0 then Inl ZeroDivisionError
      else if check_password_checkpw checkpw word full_hash then Inr (Some (word, i + 1))
      else crack_single_scan checkpw full_hash progress_interval (Suc i) rest)"

definition crack_single_user ::
  "verifier \<Rightarrow> string \<Rightarrow> string \<Rightarrow> string list \<Rightarrow> int \<Rightarrow> error + (string \<times> nat) option" where
  "crack_single_user checkpw user full_hash word_list progress_interval =
     crack_single_scan checkpw full_hash progress_interval 0 word_list"

section \<open>Strings\<close>

text \<open>
  The lines of the shadow file are modelled as \<open>string\<close>s whose characters are the code
  points below 256. On these, \<open>str.isspace\<close> holds for the code points 9 to 13, 28 to
  32, 133 and 160.
\<close>

definition isspace :: "char \<Rightarrow> bool" where
  "isspace c =
     (let n = (of_char c :: nat) in (9 \<le> n \<and> n \<le> 13) \<or> (28 \<le> n \<and> n \<le> 32) \<or> n = 133 \<or> n = 160)"

definition strip :: "string \<Rightarrow> string" where
  "strip s = rev (dropWhile isspace (rev (dropWhile isspace s)))"

text \<open>\<open>s.split(sep)\<close> for a separator of one character: never the empty list.\<close>

fun str_split :: "char \<Rightarrow> string \<Rightarrow> string list" where
  "str_split sep [] = [[]]"
| "str_split sep (c # cs) =
     (if c = sep then [] # str_split sep cs
      else (case str_split sep cs of [] \<Rightarrow> [[c]] | part # parts \<Rightarrow> (c # part) # parts))"

text \<open>
  \<open>int(s)\<close> in base ten: white space around, one optional sign, then decimal digits that
  single underscores may separate. \<open>None\<close> stands for \<open>ValueError\<close>. The white space that
  \<open>int\<close> skips is 9 to 13 and 32, and 133 and 160, which it first turns into blanks. A
  literal of more than 4300 digits is refused (the interpreter's default limit).
\<close>

definition int_space :: "char \<Rightarrow> bool" where
  "int_space c =
     (let n = (of_char c :: nat) in (9 \<le> n \<and> n \<le> 13) \<or> n = 32 \<or> n = 133 \<or> n = 160)"

definition isdigit :: "char \<Rightarrow> bool" where
  "isdigit c = (let n = (of_char c :: nat) in 48 \<le> n \<and> n \<le> 57)"

definition digit_value :: "char \<Rightarrow> nat" where
  "digit_value c = of_char c - 48"

fun int_literal_ok :: "string \<Rightarrow> bool" where
  "int_literal_ok [] = False"
| "int_literal_ok [c] = isdigit c"
| "int_literal_ok (c # d # cs) =
     (isdigit c \<and> (if d = CHR ''_'' then int_literal_ok cs else int_literal_ok (d # cs)))"

definition digits_value :: "string \<Rightarrow> nat" where
  "digits_value ds = foldl (\<lambda>acc c. acc * 10 + digit_value c) 0 ds"

definition py_int :: "string \<Rightarrow> int option" where
  "py_int s =
     (let t = rev (dropWhile int_space (rev (dropWhile int_space s)));
          negative = (t \<noteq> [] \<and> hd t = CHR ''-'');
          body = (if t \<noteq> [] \<and> (hd t = CHR ''-'' \<or> hd t = CHR ''+'') then tl t else t);
          ds = filter isdigit body
      in if int_literal_ok body \<and> length ds \<le> 4300
         then Some (if negative then - int (digits_value ds) else int (digits_value ds))
         else None)"

section \<open>The credential record parser\<close>

text \<open>The dictionary returned by \<open>parse_shadow_entry\<close>, one field per key.\<close>

record entry =
  user :: string
  algorithm :: string
  workfactor :: int
  salt :: string
  bcrypt_salt :: string
  hash :: string
  full_hash :: string

text \<open>
  \<open>parse_shadow_entry\<close>: \<open>Inr None\<close> is the \<open>None\<close> it returns for a line it rejects,
  \<open>Inl ValueError\<close> the exception of \<open>int(hash_parts[2])\<close>, which it does not catch.
\<close>

definition parse_shadow_entry :: "string \<Rightarrow> error + entry option" where
  "parse_shadow_entry line =
     (if strip line = [] then Inr None
      else
        let parts = str_split CHR '':'' (strip line) in
        if length parts \<noteq> 2 then Inr None
        else
          let user = parts ! 0;
              full_hash = parts ! 1;
              hash_parts = str_split CHR ''$'' full_hash
          in
          if length hash_parts < 4 then Inr None
          else
            let algorithm = hash_parts ! 1 in
            (case py_int (hash_parts ! 2) of
               None \<Rightarrow> Inl ValueError
             | Some cost \<Rightarrow>
                 let salt_hash = hash_parts ! 3;
                     salt = take 22 salt_hash;
                     hash_value = drop 22 salt_hash;
                     bcrypt_salt = ''$'' @ algorithm @ ''$'' @ hash_parts ! 2 @ ''$'' @ salt
                 in Inr (Some \<lparr>user = user, algorithm = algorithm, workfactor = cost,
                                salt = salt, bcrypt_salt = bcrypt_salt, hash = hash_value,
                                full_hash = full_hash\<rparr>)))"

text \<open>
  A loop that runs its body on each element in turn and collects what the bodies append
  to the result list; the first exception ends it.
\<close>

fun for_each :: "('a \<Rightarrow> error + 'b list) \<Rightarrow> 'a list \<Rightarrow> error + 'b list" where
  "for_each body [] = Inr []"
| "for_each body (x # xs) =
     (case body x of
        Inl e \<Rightarrow> Inl e
      | Inr appended \<Rightarrow>
          (case for_each body xs of Inl e \<Rightarrow> Inl e | Inr rest \<Rightarrow> Inr (appended @ rest)))"

text \<open>The loop of \<open>parse_shadow_file\<close> over the lines: an entry is kept, \<open>None\<close> is skipped.\<close>

definition parse_lines :: "string list \<Rightarrow> error + entry list" where
  "parse_lines lines =
     for_each (\<lambda>line. case parse_shadow_entry line of
                  Inl e \<Rightarrow> Inl e
                | Inr None \<Rightarrow> Inr []
                | Inr (Some entry) \<Rightarrow> Inr [entry]) lines"

text \<open>
  \<open>parse_shadow_file\<close>. The file system is outside the model: \<open>file_lines\<close> is what
  \<open>readlines\<close> returns when a file path is given, \<open>None\<close> when none is.
\<close>

definition parse_shadow_file :: "string list option \<Rightarrow> string option \<Rightarrow> error + entry list" where
  "parse_shadow_file file_lines content =
     (case content of
        Some (c # cs) \<Rightarrow> parse_lines (str_split (CHR 0x0A) (strip (c # cs)))
      | _ \<Rightarrow> (case file_lines of
                Some lines \<Rightarrow> parse_lines lines
              | None \<Rightarrow> Inl ValueError))"

section \<open>The word corpus provider\<close>




section \<open>The cracking orchestrators\<close>

text \<open>
  The dictionary appended to \<open>results\<close> for each record. Its \<open>time\<close> entry, a reading of
  the wall clock, is left out of the model, and so are the lines written to the logger
  and the progress file by \<open>save_progress\<close>: the model is what the functions return.
\<close>

record crack_result =
  result_user :: string
  password :: "string option"
  attempts :: nat
  result_workfactor :: int

text \<open>
  Dictionaries keep the order in which their keys were first inserted, and the code
  below iterates over them: they are association lists with one pair per key.
  \<open>dict_set\<close> is the assignment \<open>d[k] = v\<close>.
\<close>

fun dict_set :: "('k \<times> 'v) list \<Rightarrow> 'k \<Rightarrow> 'v \<Rightarrow> ('k \<times> 'v) list" where
  "dict_set [] k v = [(k, v)]"
| "dict_set ((k', v') # d) k v =
     (if k' = k then (k, v) # d else (k', v') # dict_set d k v)"

text \<open>The grouping loop: \<open>workfactor_groups[wf].append(entry)\<close>, under a new key if need be.\<close>

fun group_add :: "(int \<times> entry list) list \<Rightarrow> entry \<Rightarrow> (int \<times> entry list) list" where
  "group_add [] entry = [(workfactor entry, [entry])]"
| "group_add ((key, members) # groups) entry =
     (if key = workfactor entry then (key, members @ [entry]) # groups
      else (key, members) # group_add groups entry)"

definition workfactor_groups :: "entry list \<Rightarrow> (int \<times> entry list) list" where
  "workfactor_groups entries = foldl group_add [] entries"

text \<open>\<open>sorted(workfactor_groups.keys())\<close>: the order in which the groups are processed.\<close>

definition sorted_workfactors :: "entry list \<Rightarrow> int list" where
  "sorted_workfactors entries = sort (map fst (workfactor_groups entries))"

text \<open>The lookup \<open>workfactor_groups[workfactor]\<close>.\<close>

definition group_of :: "entry list \<Rightarrow> int \<Rightarrow> error + entry list" where
  "group_of entries key =
     (case map_of (workfactor_groups entries) key of None \<Rightarrow> Inl KeyError | Some members \<Rightarrow> Inr members)"

text \<open>
  \<open>crack_by_workfactor_group_parallel\<close>: the body of the loop over the records of a group,
  then the whole function. \<open>cpu_count\<close> is what \<open>mp.cpu_count()\<close> returns.
\<close>

definition crack_entry_parallel ::
  "verifier \<Rightarrow> string list \<Rightarrow> int \<Rightarrow> int \<Rightarrow> entry \<Rightarrow> error + crack_result list" where
  "crack_entry_parallel checkpw word_list num_processes key entry =
     (case crack_user_parallel checkpw (user entry) (full_hash entry) word_list num_processes of
        Inl e \<Rightarrow> Inl e
      | Inr (Some (found_password, found_attempts)) \<Rightarrow>
          Inr [\<lparr>result_user = user entry, password = Some found_password,
                attempts = found_attempts, result_workfactor = key\<rparr>]
      | Inr None \<Rightarrow>
          Inr [\<lparr>result_user = user entry, password = None,
                attempts = length word_list, result_workfactor = key\<rparr>])"

definition crack_by_workfactor_group_parallel ::
  "verifier \<Rightarrow> int \<Rightarrow> entry list \<Rightarrow> string list \<Rightarrow> int option \<Rightarrow> error + crack_result list" where
  "crack_by_workfactor_group_parallel checkpw cpu_count entries word_list num_processes =
     (let n = (case num_processes of None \<Rightarrow> cpu_count | Some given \<Rightarrow> given)
      in for_each
           (\<lambda>key. case group_of entries key of
                     Inl e \<Rightarrow> Inl e
                   | Inr members \<Rightarrow> for_each (crack_entry_parallel checkpw word_list n key) members)
           (sorted_workfactors entries))"

text \<open>
  \<open>crack_by_workfactor_group\<close>. \<open>remaining_dict\<close> is the dictionary comprehension
  \<open>{e['user']: e for e in group}\<close>. \<open>crack_group_scan\<close> is the loop over the words, \<open>i\<close> the
  counter of \<open>enumerate\<close>: it stops when nobody remains, appends a result for every
  remaining user whose hash the word verifies, and then deletes these users. It returns
  the results appended and the users that remain.
\<close>

definition remaining_dict :: "entry list \<Rightarrow> (string \<times> entry) list" where
  "remaining_dict members = foldl (\<lambda>d e. dict_set d (user e) e) [] members"

fun crack_group_scan ::
  "verifier \<Rightarrow> int \<Rightarrow> nat \<Rightarrow> string list \<Rightarrow> (string \<times> entry) list
     \<Rightarrow> crack_result list \<times> (string \<times> entry) list" where
  "crack_group_scan checkpw key i [] remaining = ([], remaining)"
| "crack_group_scan checkpw key i (word # rest) remaining =
     (if remaining = [] then ([], remaining)
      else
        let found = filter (\<lambda>(u, entry). check_password_checkpw checkpw word (full_hash entry))
                      remaining;
            found_users = map fst found;
            appended = map (\<lambda>(u, entry). \<lparr>result_user = u, password = Some word,
                                             attempts = i + 1, result_workfactor = key\<rparr>) found;
            still = filter (\<lambda>(u, entry). u \<notin> set found_users) remaining
        in (case crack_group_scan checkpw key (Suc i) rest still of
              (later, left) \<Rightarrow> (appended @ later, left)))"

definition crack_group :: "verifier \<Rightarrow> string list \<Rightarrow> int \<Rightarrow> entry list \<Rightarrow> crack_result list" where
  "crack_group checkpw word_list key members =
     (case crack_group_scan checkpw key 0 word_list (remaining_dict members) of
        (found, left) \<Rightarrow>
          found @ map (\<lambda>(u, entry). \<lparr>result_user = u, password = None,
                                       attempts = length word_list, result_workfactor = key\<rparr>) left)"

definition crack_by_workfactor_group ::
  "verifier \<Rightarrow> entry list \<Rightarrow> string list \<Rightarrow> error + crack_result list" where
  "crack_by_workfactor_group checkpw entries word_list =
     for_each
       (\<lambda>key. case group_of entries key of
                 Inl e \<Rightarrow> Inl e
               | Inr members \<Rightarrow> Inr (crack_group checkpw word_list key members))
       (sorted_workfactors entries)"

section \<open>Notions used to state the properties\<close>

text \<open>
  A list of ranges is contiguous from \<open>a\<close> to \<open>b\<close> when the first starts at \<open>a\<close>, each one
  is not empty and stops where the next starts, and the last stops at \<open>b\<close>.
\<close>

fun contiguous :: "nat \<Rightarrow> (nat \<times> nat) list \<Rightarrow> nat \<Rightarrow> bool" where
  "contiguous a [] b = (a = b)"
| "contiguous a ((s, e) # rs) b = (s = a \<and> s < e \<and> contiguous e rs b)"

text \<open>The position of the first element that satisfies a predicate.\<close>

fun find_idx :: "('a \<Rightarrow> bool) \<Rightarrow> 'a list \<Rightarrow> nat option" where
  "find_idx P [] = None"
| "find_idx P (x # xs) = (if P x then Some 0 else map_option Suc (find_idx P xs))"





text \<open>\<open>sep.join(parts)\<close> for a separator of one character.\<close>

fun join :: "char \<Rightarrow> string list \<Rightarrow> string" where
  "join sep [] = []"
| "join sep [part] = part"
| "join sep (part # parts) = part @ sep # join sep parts"

text \<open>
  The hash field of a line: what follows the colon, when the line without its surrounding
  white space has exactly one colon.
\<close>

definition hash_field :: "string \<Rightarrow> string option" where
  "hash_field line =
     (case str_split CHR '':'' (strip line) of [user_id, field] \<Rightarrow> Some field | _ \<Rightarrow> None)"

text \<open>The \<open>$\<close>-delimited segments of a record's full hash, and the third of them, the cost.\<close>

definition segments :: "entry \<Rightarrow> string list" where
  "segments e = str_split CHR ''$'' (full_hash e)"

definition cost_field :: "entry \<Rightarrow> string" where
  "cost_field e = segments e ! 2"

text \<open>
  The first line of \<open>SHADOW_FILE_CONTENT\<close> and the record the parser builds from it, used
  as the concrete input of examples.
\<close>

definition sample_line :: string where
  "sample_line = ''Bilbo:$2b$08$J9FW66ZdPI2nrIMcOxFYI.qx268uZn.ajhymLP/YHaAsfBGP3Fnmq''"

definition sample_entry :: entry where
  "sample_entry =
     \<lparr>user = ''Bilbo'', algorithm = ''2b'', workfactor = 8, salt = ''J9FW66ZdPI2nrIMcOxFYI.'',
      bcrypt_salt = ''$2b$08$J9FW66ZdPI2nrIMcOxFYI.'', hash = ''qx268uZn.ajhymLP/YHaAsfBGP3Fnmq'',
      full_hash = ''$2b$08$J9FW66ZdPI2nrIMcOxFYI.qx268uZn.ajhymLP/YHaAsfBGP3Fnmq''\<rparr>"

text \<open>
  The result a record should get: the first word of the corpus that verifies against
  its full hash, with its position counted from one, or no password and the length of
  the corpus.
\<close>

definition expected_result :: "verifier \<Rightarrow> string list \<Rightarrow> entry \<Rightarrow> crack_result" where
  "expected_result checkpw word_list e =
     (case find_idx (\<lambda>w. check_password_checkpw checkpw w (full_hash e)) word_list of
        Some k \<Rightarrow> \<lparr>result_user = user e, password = Some (word_list ! k), attempts = k + 1,
                   result_workfactor = workfactor e\<rparr>
      | None \<Rightarrow> \<lparr>result_user = user e, password = None, attempts = length word_list,
                 result_workfactor = workfactor e\<rparr>)"

text \<open>Three records of two cost factors, given out of order, for examples.\<close>

definition sample_entries :: "entry list" where
  "sample_entries =
     [\<lparr>user = ''Fili'', algorithm = ''2b'', workfactor = 9, salt = ''s'', bcrypt_salt = ''$2b$09$s'',
       hash = ''h1'', full_hash = ''target''\<rparr>,
      \<lparr>user = ''Bilbo'', algorithm = ''2b'', workfactor = 8, salt = ''s'', bcrypt_salt = ''$2b$08$s'',
       hash = ''h2'', full_hash = ''bbbbbb''\<rparr>,
      \<lparr>user = ''Kili'', algorithm = ''2b'', workfactor = 9, salt = ''s'', bcrypt_salt = ''$2b$09$s'',
       hash = ''h3'', full_hash = ''absent''\<rparr>]"

text \<open>An oracle for examples: a word verifies against the hash equal to it.\<close>

definition sample_checkpw :: verifier where
  "sample_checkpw w h = (if w = [] then None else Some (w = h))"




text \<open>
  What the scan of the word list from counter \<open>i\<close> on owes a remaining user: the first
  word that verifies, at its position, or no password and \<open>n\<close> attempts.
\<close>

definition scan_expected ::
  "verifier \<Rightarrow> int \<Rightarrow> nat \<Rightarrow> string list \<Rightarrow> nat \<Rightarrow> string \<times> entry \<Rightarrow> crack_result" where
  "scan_expected checkpw key n ws i pe =
     (case find_idx (\<lambda>w. check_password_checkpw checkpw w (full_hash (snd pe))) ws of
        Some k \<Rightarrow> \<lparr>result_user = fst pe, password = Some (ws ! k), attempts = i + k + 1,
                   result_workfactor = key\<rparr>
      | None \<Rightarrow> \<lparr>result_user = fst pe, password = None, attempts = n, result_workfactor = key\<rparr>)"

section \<open>Chunks: auxiliary facts\<close>

lemma slice_split: "a \<le> e \<Longrightarrow> e \<le> b \<Longrightarrow> slice xs a b = slice xs a e @ slice xs e b"
proof -
  assume ae: "a \<le> e" and eb: "e \<le> b"
  have "take (b - a) (drop a xs) = take ((e - a) + (b - e)) (drop a xs)"
    using ae eb by simp
  also have "\<dots> = take (e - a) (drop a xs) @ take (b - e) (drop (e - a) (drop a xs))"
    by (rule take_add)
  finally show ?thesis using ae by (simp add: slice_def)
qed

lemma slice_length: "b \<le> length xs \<Longrightarrow> length (slice xs a b) = b - a"
  by (simp add: slice_def)

lemma slice_nth: "b \<le> length xs \<Longrightarrow> k < b - a \<Longrightarrow> slice xs a b ! k = xs ! (a + k)"
  by (simp add: slice_def)

lemma slice_all: "slice xs 0 (length xs) = xs"
  by (simp add: slice_def)

lemma concat_single: "concat (map (\<lambda>i. [g i]) xs) = map g xs"
  by (induction xs) auto

lemma concat_cond: "concat (map (\<lambda>i. if P i then [g i] else []) xs) = map g (filter P xs)"
  by (induction xs) auto

lemma filter_less_upt: "l \<le> n \<Longrightarrow> filter (\<lambda>i. i < l) [0..<n] = [0..<l]"
  by (induction n) (auto simp: le_Suc_eq)

lemma chunk_ranges_small:
  assumes "len < n"
  shows "chunk_ranges len n = map (\<lambda>i. (i, Suc i)) [0..<len]"
proof -
  have cs: "chunk_size_of len n = 1" using assms by (simp add: chunk_size_of_def)
  have "chunk_range len n i = (if i < len then [(i, Suc i)] else [])" for i
    using assms by (auto simp: chunk_range_def cs Let_def)
  then have "chunk_range len n = (\<lambda>i. if i < len then [(i, Suc i)] else [])"
    by (rule ext)
  then have "chunk_ranges len n = concat (map (\<lambda>i. if i < len then [(i, Suc i)] else []) [0..<n])"
    by (simp add: chunk_ranges_def)
  also have "\<dots> = map (\<lambda>i. (i, Suc i)) (filter (\<lambda>i. i < len) [0..<n])"
    by (rule concat_cond)
  finally show ?thesis using assms by (simp add: filter_less_upt)
qed

lemma last_start_less:
  assumes "1 \<le> n" "n \<le> len" "i < n"
  shows "i * (len div n) < (len::nat)"
proof -
  have pos: "1 \<le> len div n" using assms by (simp add: div_greater_zero_iff Suc_le_eq)
  have "i * (len div n) + len div n = Suc i * (len div n)" by simp
  also have "\<dots> \<le> n * (len div n)" using assms by (intro mult_le_mono1) simp
  also have "\<dots> \<le> len" by simp
  finally show ?thesis using pos by linarith
qed

lemma chunk_ranges_large:
  assumes "1 \<le> n" "n \<le> len"
  shows "chunk_ranges len n =
    map (\<lambda>i. (i * (len div n), Suc i * (len div n))) [0..<n - 1] @ [((n - 1) * (len div n), len)]"
proof -
  have pos: "1 \<le> len div n" using assms by (simp add: div_greater_zero_iff Suc_le_eq)
  then have cs: "chunk_size_of len n = len div n" by (simp add: chunk_size_of_def)
  let ?g = "\<lambda>i. (i * (len div n), if i < n - 1 then Suc i * (len div n) else len)"
  have "chunk_range len n i = [?g i]" if "i < n" for i
    using last_start_less[OF assms that] by (simp add: chunk_range_def cs Let_def)
  then have "map (chunk_range len n) [0..<n] = map (\<lambda>i. [?g i]) [0..<n]"
    by simp
  then have "chunk_ranges len n = concat (map (\<lambda>i. [?g i]) [0..<n])"
    unfolding chunk_ranges_def by (rule arg_cong)
  then have "chunk_ranges len n = map ?g [0..<n]"
    by (simp only: concat_single)
  also have "[0..<n] = [0..<n - 1] @ [n - 1]"
    using assms by (cases n) simp_all
  finally show ?thesis by simp
qed

lemma contiguous_append:
  "contiguous a (xs @ ys) b = (\<exists>m. contiguous a xs m \<and> contiguous m ys b)"
  by (induction xs arbitrary: a) auto

lemma contiguous_steps:
  "0 < c \<Longrightarrow> contiguous 0 (map (\<lambda>i. (i * c, Suc i * c)) [0..<k]) (k * c)"
  by (induction k) (auto simp: contiguous_append)

lemma contiguous_upt: "contiguous a rs b \<Longrightarrow> concat (map (\<lambda>(s, e). [s..<e]) rs) = [a..<b] \<and> a \<le> b"
proof (induction rs arbitrary: a)
  case Nil
  then show ?case by simp
next
  case (Cons r rs)
  obtain s e where r: "r = (s, e)" by (cases r)
  from Cons.prems r have "s = a" "a < e" "contiguous e rs b" by auto
  with Cons.IH[of e] r have "concat (map (\<lambda>(s, e). [s..<e]) (r # rs)) = [a..<e] @ [e..<b]" "e \<le> b"
    by auto
  moreover have "[a..<e] @ [e..<b] = [a..<b]"
    using \<open>a < e\<close> \<open>e \<le> b\<close> upt_add_eq_append[of a e "b - e"] by simp
  ultimately show ?case using \<open>a < e\<close> by simp
qed

lemma chunk_ranges_contiguous:
  assumes "1 \<le> n"
  shows "contiguous 0 (chunk_ranges len n) len"
proof (cases "len < n")
  case True
  with contiguous_steps[of 1 len] show ?thesis by (simp add: chunk_ranges_small)
next
  case False
  then have le: "n \<le> len" by simp
  have pos: "0 < len div n" using assms le by (simp add: div_greater_zero_iff Suc_le_eq)
  from last_start_less[OF assms le, of "n - 1"] assms have "(n - 1) * (len div n) < len" by simp
  with contiguous_steps[OF pos, of "n - 1"] show ?thesis
    by (auto simp: chunk_ranges_large[OF assms le] contiguous_append)
qed




lemma find_idx_append:
  "find_idx P (xs @ ys) =
     (case find_idx P xs of Some k \<Rightarrow> Some k
      | None \<Rightarrow> map_option (\<lambda>k. length xs + k) (find_idx P ys))"
proof (induction xs)
  case Nil
  show ?case by (cases "find_idx P ys") simp_all
next
  case (Cons x xs)
  then show ?case by (cases "find_idx P ys") (auto split: option.splits)
qed

lemma find_idx_None: "find_idx P xs = None \<longleftrightarrow> (\<forall>x\<in>set xs. \<not> P x)"
  by (induction xs) auto

lemma find_idx_Some:
  "find_idx P xs = Some k \<longleftrightarrow> k < length xs \<and> P (xs ! k) \<and> (\<forall>j<k. \<not> P (xs ! j))"
proof (induction xs arbitrary: k)
  case Nil
  show ?case by simp
next
  case (Cons x xs)
  show ?case
  proof (cases "P x")
    case True
    then show ?thesis by (cases k) auto
  next
    case False
    show ?thesis
    proof (cases k)
      case 0
      with False show ?thesis by simp
    next
      case (Suc m)
      have "(\<forall>j<Suc m. \<not> P ((x # xs) ! j)) \<longleftrightarrow> (\<forall>j<m. \<not> P (xs ! j))"
        using False by (auto simp: less_Suc_eq_0_disj)
      with False Suc Cons.IH[of m] show ?thesis by auto
    qed
  qed
qed

lemma find_idx_less: "find_idx P xs = Some k \<Longrightarrow> k < length xs"
  by (simp add: find_idx_Some)

lemma checkpw_iff: "check_password_checkpw chk w h \<longleftrightarrow> chk w h = Some True"
  by (simp add: check_password_checkpw_def split: option.splits)

lemma worker_scan_find:
  "crack_worker_scan chk h s i ws =
     map_option (\<lambda>k. (ws ! k, s + i + k)) (find_idx (\<lambda>w. check_password_checkpw chk w h) ws)"
  by (induction ws arbitrary: i) (auto simp: checkpw_iff option.map_comp comp_def)

lemma single_scan_find:
  "pi \<noteq> 0 \<Longrightarrow> crack_single_scan chk h pi i ws =
     Inr (map_option (\<lambda>k. (ws ! k, i + k + 1)) (find_idx (\<lambda>w. check_password_checkpw chk w h) ws))"
  by (induction ws arbitrary: i) (auto simp: option.map_comp comp_def)

lemma first_result_chunks:
  assumes "contiguous a rs b" "b \<le> length wl"
  shows "first_result (map (crack_worker_chunk chk)
            (map (\<lambda>(start, stop). (slice wl start stop, h, start)) rs)) =
         map_option (\<lambda>k. (wl ! (a + k), a + k + 1))
           (find_idx (\<lambda>w. check_password_checkpw chk w h) (slice wl a b))"
  using assms
proof (induction rs arbitrary: a)
  case Nil
  then show ?case by (simp add: slice_def)
next
  case (Cons r rs)
  let ?P = "\<lambda>w. check_password_checkpw chk w h"
  obtain s e where r: "r = (s, e)" by (cases r)
  from Cons.prems r have sa: "s = a" and ae: "a < e" and ct: "contiguous e rs b" by auto
  from contiguous_upt[OF ct] have eb: "e \<le> b" by simp
  have el: "e \<le> length wl" using eb Cons.prems(2) by simp
  have split: "slice wl a b = slice wl a e @ slice wl e b"
    using ae eb by (intro slice_split) simp_all
  show ?case
  proof (cases "find_idx ?P (slice wl a e)")
    case None
    have "first_result (map (crack_worker_chunk chk)
            (map (\<lambda>(start, stop). (slice wl start stop, h, start)) (r # rs))) =
          first_result (map (crack_worker_chunk chk)
            (map (\<lambda>(start, stop). (slice wl start stop, h, start)) rs))"
      using None by (simp add: r sa crack_worker_chunk_def worker_scan_find)
    also have "\<dots> = map_option (\<lambda>k. (wl ! (e + k), e + k + 1)) (find_idx ?P (slice wl e b))"
      using Cons.IH[OF ct Cons.prems(2)] .
    also have "\<dots> = map_option (\<lambda>k. (wl ! (a + k), a + k + 1)) (find_idx ?P (slice wl a b))"
      using None ae by (simp add: split find_idx_append slice_length[OF el] option.map_comp comp_def)
    finally show ?thesis .
  next
    case (Some k)
    from find_idx_less[OF Some] have "k < e - a" by (simp add: slice_length[OF el])
    then have "slice wl a e ! k = wl ! (a + k)" using el by (simp add: slice_nth)
    then show ?thesis
      using Some by (simp add: r sa crack_worker_chunk_def worker_scan_find split find_idx_append)
  qed
qed

lemma crack_user_parallel_find:
  assumes "1 \<le> n"
  shows "crack_user_parallel chk uid h wl n =
     Inr (map_option (\<lambda>k. (wl ! k, k + 1)) (find_idx (\<lambda>w. check_password_checkpw chk w h) wl))"
proof -
  have "contiguous 0 (chunk_ranges (length wl) (nat n)) (length wl)"
    using assms by (intro chunk_ranges_contiguous) simp
  from first_result_chunks[OF this, of wl chk h] assms show ?thesis
    by (simp add: crack_user_parallel_def args_list_def slice_all)
qed

lemma crack_single_user_find:
  "pi \<noteq> 0 \<Longrightarrow> crack_single_user chk uid h wl pi =
     Inr (map_option (\<lambda>k. (wl ! k, k + 1)) (find_idx (\<lambda>w. check_password_checkpw chk w h) wl))"
  by (simp add: crack_single_user_def single_scan_find)

section \<open>The parallel work distributor: properties\<close>

text \<open>
  Claim C1. Whatever the corpus, the reference and the worker count \<open>N \<ge> 1\<close>, when words
  of the corpus verify against the reference, \<open>crack_user_parallel\<close> returns the verifying
  word with the lowest corpus index \<open>k\<close>, whichever chunk the other verifying words lie
  in, together with its position counted from one, \<open>k + 1\<close>.
\<close>

theorem parallel_lowest_index:
  assumes "1 \<le> num_processes"
    and "k < length word_list"
    and "check_password_checkpw checkpw (word_list ! k) ref"
    and "\<forall>j<k. \<not> check_password_checkpw checkpw (word_list ! j) ref"
  shows "crack_user_parallel checkpw uid ref word_list num_processes =
           Inr (Some (word_list ! k, k + 1))"
proof -
  have "find_idx (\<lambda>w. check_password_checkpw checkpw w ref) word_list = Some k"
    using assms(2-4) by (simp add: find_idx_Some)
  then show ?thesis by (simp add: crack_user_parallel_find[OF assms(1)])
qed

text \<open>
  Two workers, four words, and an oracle that accepts every word as long as the
  reference: the words at indices 1 and 3 verify, in different chunks.
\<close>

theorem parallel_lowest_index_witness:
  "(1::int) \<le> 2 \<and> (1::nat) < length [''aa'', ''b'', ''cc'', ''d'']
   \<and> check_password_checkpw (\<lambda>w h. Some (length w = length h)) ([''aa'', ''b'', ''cc'', ''d''] ! 1) ''x''
   \<and> check_password_checkpw (\<lambda>w h. Some (length w = length h)) ([''aa'', ''b'', ''cc'', ''d''] ! 3) ''x''
   \<and> \<not> check_password_checkpw (\<lambda>w h. Some (length w = length h))
         ([''aa'', ''b'', ''cc'', ''d''] ! 0) ''x''
   \<and> crack_user_parallel (\<lambda>w h. Some (length w = length h)) ''u'' ''x''
        [''aa'', ''b'', ''cc'', ''d''] 2 = Inr (Some (''b'', 2))"
  using parallel_lowest_index [where num_processes = 2 and k = 1
      and word_list = "[''aa'', ''b'', ''cc'', ''d'']"
      and checkpw = "\<lambda>w h. Some (length w = length h)" and ref = "''x''" and uid = "''u''"]
  by (simp add: check_password_checkpw_def)






text \<open>
  Claim C10. For every word list, reference and worker count \<open>N \<ge> 1\<close>, the parallel
  cracker and the single-core cracker (with a progress interval other than zero, as its
  default 5000 is) return the same outcome: both nothing, or both the same word with the
  same attempt count.
\<close>

theorem parallel_agrees_with_single:
  assumes "1 \<le> num_processes" and "progress_interval \<noteq> 0"
  shows "crack_user_parallel checkpw uid ref word_list num_processes =
         crack_single_user checkpw uid ref word_list progress_interval"
  by (simp add: crack_user_parallel_find[OF assms(1)] crack_single_user_find[OF assms(2)])

theorem parallel_agrees_with_single_witness:
  "(1::int) \<le> 3 \<and> (5000::int) \<noteq> 0
   \<and> crack_user_parallel (\<lambda>w h. if w = [] then None else Some (w = h)) ''u'' ''target''
        [''aaaaaa'', ''bbbbbb'', ''target'', ''''] 3 = Inr (Some (''target'', 3))
   \<and> crack_single_user (\<lambda>w h. if w = [] then None else Some (w = h)) ''u'' ''target''
        [''aaaaaa'', ''bbbbbb'', ''target'', ''''] 5000 = Inr (Some (''target'', 3))"
  using parallel_agrees_with_single [of 3 5000 "\<lambda>w h. if w = [] then None else Some (w = h)"
      "''u''" "''target''" "[''aaaaaa'', ''bbbbbb'', ''target'', '''']"]
  by (simp add: crack_single_user_def check_password_checkpw_def)

section \<open>The word corpus provider: properties\<close>





section \<open>The credential record parser: auxiliary facts\<close>

lemma str_split_not_Nil: "str_split c s \<noteq> []"
  by (induction s) (auto split: list.splits)

lemma str_split_length: "length (str_split c s) = Suc (count_list s c)"
  by (induction s) (auto split: list.splits simp: str_split_not_Nil)

lemma str_split_no_sep: "p \<in> set (str_split c s) \<Longrightarrow> c \<notin> set p"
  by (induction s arbitrary: p) (auto split: if_splits list.splits)

lemma str_split_plain: "c \<notin> set a \<Longrightarrow> str_split c a = [a]"
  by (induction a) auto

lemma str_split_app: "c \<notin> set a \<Longrightarrow> str_split c (a @ c # b) = a # str_split c b"
  by (induction a) auto

lemma join_str_split: "join c (str_split c s) = s"
proof (induction s)
  case Nil
  show ?case by simp
next
  case (Cons x s)
  obtain p ps where sp: "str_split c s = p # ps"
    using str_split_not_Nil[of c s] by (cases "str_split c s") auto
  with Cons show ?case by (cases ps) auto
qed

lemma join_Cons_tail: "\<exists>t. join c (p # ps) = p @ t"
  by (cases ps) auto

lemma count_dropWhile: "\<not> P c \<Longrightarrow> count_list (dropWhile P xs) c = count_list xs c"
  by (induction xs) auto

lemma count_rev: "count_list (rev xs) c = count_list xs c"
  by (induction xs) auto

lemma colon_not_space: "\<not> isspace CHR '':''"
  by (simp add: isspace_def)

lemma count_strip: "count_list (strip line) CHR '':'' = count_list line CHR '':''"
  by (simp add: strip_def count_rev count_dropWhile colon_not_space)

lemma length2_cases: "length xs = 2 \<longleftrightarrow> (\<exists>a b. xs = [a, b])"
  by (cases xs; cases "tl xs") auto

lemma hash_field_None: "hash_field line = None \<longleftrightarrow> count_list line CHR '':'' \<noteq> 1"
proof -
  have "hash_field line = None \<longleftrightarrow> length (str_split CHR '':'' (strip line)) \<noteq> 2"
    by (auto simp: hash_field_def length2_cases split: list.splits)
  then show ?thesis by (simp add: str_split_length count_strip)
qed

lemma hash_field_Some:
  "hash_field line = Some h \<longleftrightarrow>
     length (str_split CHR '':'' (strip line)) = 2 \<and> h = str_split CHR '':'' (strip line) ! 1"
  by (auto simp: hash_field_def length2_cases split: list.splits)

lemma parse_rejects_iff:
  "parse_shadow_entry line = Inr None \<longleftrightarrow>
     (case hash_field line of None \<Rightarrow> True | Some h \<Rightarrow> length (str_split CHR ''$'' h) < 4)"
proof (cases "hash_field line")
  case None
  then have "length (str_split CHR '':'' (strip line)) \<noteq> 2"
    by (auto simp: hash_field_def split: list.splits)
  then show ?thesis using None by (simp add: parse_shadow_entry_def Let_def)
next
  case (Some h)
  then have l: "length (str_split CHR '':'' (strip line)) = 2"
    and h: "str_split CHR '':'' (strip line) ! 1 = h"
    by (simp_all add: hash_field_Some)
  from l have ne: "strip line \<noteq> []" by auto
  show ?thesis using Some l h ne
    by (auto simp: parse_shadow_entry_def Let_def split: option.splits)
qed

lemma parse_accepts:
  assumes "parse_shadow_entry line = Inr (Some e)"
  shows "hash_field line = Some (full_hash e)"
    and "4 \<le> length (segments e)"
    and "py_int (segments e ! 2) = Some (workfactor e)"
    and "algorithm e = segments e ! 1"
    and "salt e = take 22 (segments e ! 3)"
    and "hash e = drop 22 (segments e ! 3)"
    and "bcrypt_salt e = CHR ''$'' # algorithm e @ CHR ''$'' # segments e ! 2 @ CHR ''$'' # salt e"
    and "user e = str_split CHR '':'' (strip line) ! 0"
proof -
  from assms have l: "length (str_split CHR '':'' (strip line)) = 2"
    by (auto simp: parse_shadow_entry_def Let_def split: if_splits)
  let ?h = "str_split CHR '':'' (strip line) ! 1"
  from assms l have l4: "\<not> length (str_split CHR ''$'' ?h) < 4"
    by (auto simp: parse_shadow_entry_def Let_def split: if_splits)
  from assms l l4 obtain n where n: "py_int (str_split CHR ''$'' ?h ! 2) = Some n"
    by (auto simp: parse_shadow_entry_def Let_def split: if_splits option.splits)
  from assms l l4 n have e: "e = \<lparr>user = str_split CHR '':'' (strip line) ! 0,
      algorithm = str_split CHR ''$'' ?h ! 1, workfactor = n,
      salt = take 22 (str_split CHR ''$'' ?h ! 3),
      bcrypt_salt = ''$'' @ str_split CHR ''$'' ?h ! 1 @ ''$'' @ str_split CHR ''$'' ?h ! 2 @ ''$''
          @ take 22 (str_split CHR ''$'' ?h ! 3),
      hash = drop 22 (str_split CHR ''$'' ?h ! 3), full_hash = ?h\<rparr>"
    by (auto simp: parse_shadow_entry_def Let_def split: if_splits)
  show "hash_field line = Some (full_hash e)" using l e by (simp add: hash_field_Some)
  show "4 \<le> length (segments e)" using l4 e by (simp add: segments_def)
  show "py_int (segments e ! 2) = Some (workfactor e)" using n e by (simp add: segments_def)
  show "algorithm e = segments e ! 1" using e by (simp add: segments_def)
  show "salt e = take 22 (segments e ! 3)" using e by (simp add: segments_def)
  show "hash e = drop 22 (segments e ! 3)" using e by (simp add: segments_def)
  show "bcrypt_salt e = CHR ''$'' # algorithm e @ CHR ''$'' # segments e ! 2 @ CHR ''$'' # salt e"
    using e by (simp add: segments_def)
  show "user e = str_split CHR '':'' (strip line) ! 0" using e by simp
qed

lemma four_segments:
  assumes "4 \<le> length xs"
  shows "\<exists>rest. xs = xs ! 0 # xs ! 1 # xs ! 2 # xs ! 3 # rest"
proof -
  from assms obtain a b c d rest where "xs = a # b # c # d # rest"
    by (cases xs; cases "tl xs"; cases "tl (tl xs)"; cases "tl (tl (tl xs))") auto
  then show ?thesis by simp
qed

lemma segment_no_dollar: "i < length (segments e) \<Longrightarrow> CHR ''$'' \<notin> set (segments e ! i)"
  unfolding segments_def by (rule str_split_no_sep[of _ _ "full_hash e"]) simp

lemma bcrypt_salt_split:
  assumes "parse_shadow_entry line = Inr (Some e)"
  shows "str_split CHR ''$'' (bcrypt_salt e) = [[], algorithm e, cost_field e, salt e]"
proof -
  note p = parse_accepts[OF assms]
  have a: "CHR ''$'' \<notin> set (algorithm e)" using p(2) by (simp add: p(4) segment_no_dollar)
  have c: "CHR ''$'' \<notin> set (segments e ! 2)" using p(2) by (simp add: segment_no_dollar)
  have "CHR ''$'' \<notin> set (segments e ! 3)" using p(2) by (simp add: segment_no_dollar)
  then have s: "CHR ''$'' \<notin> set (salt e)" unfolding p(5) by (auto dest: in_set_takeD)
  have "str_split CHR ''$'' (bcrypt_salt e) =
        [] # str_split CHR ''$'' (algorithm e @ CHR ''$'' # segments e ! 2 @ CHR ''$'' # salt e)"
    by (simp add: p(7))
  also have "\<dots> = [] # algorithm e # str_split CHR ''$'' (segments e ! 2 @ CHR ''$'' # salt e)"
    by (simp only: str_split_app[OF a])
  also have "\<dots> = [] # algorithm e # segments e ! 2 # str_split CHR ''$'' (salt e)"
    by (simp only: str_split_app[OF c])
  also have "\<dots> = [[], algorithm e, cost_field e, salt e]"
    by (simp only: str_split_plain[OF s] cost_field_def)
  finally show ?thesis .
qed

lemma take_prefix_app: "take (length a + n) (a @ b) = a @ take n b"
  by simp

lemma bcrypt_salt_prefix:
  assumes "parse_shadow_entry line = Inr (Some e)" and "segments e ! 0 = []"
  shows "take (length (bcrypt_salt e)) (full_hash e) = bcrypt_salt e"
proof -
  note p = parse_accepts[OF assms(1)]
  from four_segments[OF p(2)] assms(2) obtain rest where
    segs: "segments e = [] # segments e ! 1 # segments e ! 2 # segments e ! 3 # rest"
    by auto
  obtain t where t: "join CHR ''$'' (segments e ! 3 # rest) = segments e ! 3 @ t"
    using join_Cons_tail by blast
  have "full_hash e = join CHR ''$'' (segments e)"
    by (simp add: segments_def join_str_split)
  also have "\<dots> = CHR ''$'' # segments e ! 1 @ CHR ''$'' # segments e ! 2 @ CHR ''$'' #
        join CHR ''$'' (segments e ! 3 # rest)"
    by (subst segs) simp
  finally have fh: "full_hash e =
      (CHR ''$'' # segments e ! 1 @ CHR ''$'' # segments e ! 2 @ [CHR ''$'']) @ segments e ! 3 @ t"
    by (simp add: t)
  have bs: "bcrypt_salt e =
      (CHR ''$'' # segments e ! 1 @ CHR ''$'' # segments e ! 2 @ [CHR ''$'']) @ take 22 (segments e ! 3)"
    by (simp add: p(7) p(4) p(5))
  have "take (length (take 22 (segments e ! 3))) (segments e ! 3 @ t) = take 22 (segments e ! 3)"
    by (cases "22 \<le> length (segments e ! 3)") (simp_all add: min_def)
  then show ?thesis
    by (simp only: bs fh length_append take_prefix_app)
qed

lemma bcrypt_salt_length:
  assumes "parse_shadow_entry line = Inr (Some e)"
  shows "length (bcrypt_salt e) =
           3 + length (algorithm e) + length (cost_field e) + min 22 (length (segments e ! 3))"
  using parse_accepts[OF assms] by (simp add: cost_field_def min_def)

lemma digit_not_space: "isdigit c \<Longrightarrow> \<not> int_space c"
  by (auto simp: isdigit_def int_space_def Let_def)

lemma digit_not_sign: "isdigit c \<Longrightarrow> c \<noteq> CHR ''-'' \<and> c \<noteq> CHR ''+''"
  by (auto simp: isdigit_def)

lemma digit_value_pos:
  assumes "isdigit c" and "c \<noteq> CHR ''0''"
  shows "0 < digit_value c"
proof -
  have "of_char c \<noteq> (48::nat)"
  proof
    assume "of_char c = (48::nat)"
    moreover have "(of_char CHR ''0'' :: nat) = 48" by simp
    ultimately have "char_of (of_char c :: nat) = char_of (of_char CHR ''0'' :: nat)"
      by (simp only:)
    then have "c = CHR ''0''" by (simp only: char_of_char)
    with assms(2) show False by simp
  qed
  with assms(1) show ?thesis by (simp add: isdigit_def digit_value_def Let_def)
qed

lemma foldl_digits_pos:
  "0 < acc \<Longrightarrow> 0 < foldl (\<lambda>acc c. acc * 10 + digit_value c) (acc::nat) ds"
  by (induction ds arbitrary: acc) simp_all

lemma foldl_digits_some_pos:
  "\<exists>c\<in>set ds. 0 < digit_value c \<Longrightarrow> 0 < foldl (\<lambda>acc c. acc * 10 + digit_value c) (acc::nat) ds"
proof (induction ds arbitrary: acc)
  case Nil
  then show ?case by simp
next
  case (Cons d ds)
  show ?case
  proof (cases "0 < digit_value d")
    case True
    then have "0 < acc * 10 + digit_value d" by simp
    then show ?thesis by (simp add: foldl_digits_pos)
  next
    case False
    with Cons.prems have "\<exists>c\<in>set ds. 0 < digit_value c" by auto
    then show ?thesis by (simp add: Cons.IH)
  qed
qed

lemma py_int_digits:
  assumes "\<forall>c\<in>set s. isdigit c" and "s \<noteq> []"
  shows "py_int s = (if int_literal_ok s \<and> length s \<le> 4300 then Some (int (digits_value s)) else None)"
proof -
  have hd: "isdigit (hd s)" and lst: "isdigit (last s)" using assms by simp_all
  have d1: "dropWhile int_space s = s"
    using hd by (simp add: dropWhile_eq_self_iff digit_not_space)
  have d2: "dropWhile int_space (rev s) = rev s"
    using lst assms(2) by (simp add: dropWhile_eq_self_iff digit_not_space hd_rev)
  have f: "filter isdigit s = s" using assms(1) by simp
  from digit_not_sign[OF hd] show ?thesis
    by (simp add: py_int_def d1 d2 f Let_def)
qed

lemma py_int_digits_positive:
  assumes "py_int s = Some v" and "\<forall>c\<in>set s. isdigit c" and "\<exists>c\<in>set s. c \<noteq> CHR ''0''"
  shows "0 < v"
proof -
  from assms(3) have ne: "s \<noteq> []" by auto
  from assms(1) py_int_digits[OF assms(2) ne] have v: "v = int (digits_value s)"
    by (simp split: if_splits)
  from assms(2,3) have "\<exists>c\<in>set s. 0 < digit_value c"
    by (auto intro: digit_value_pos)
  then have "0 < digits_value s" unfolding digits_value_def by (rule foldl_digits_some_pos)
  with v show ?thesis by simp
qed

lemma for_each_append:
  "for_each body (xs @ ys) =
     (case for_each body xs of
        Inl e \<Rightarrow> Inl e
      | Inr a \<Rightarrow> (case for_each body ys of Inl e \<Rightarrow> Inl e | Inr b \<Rightarrow> Inr (a @ b)))"
  by (induction xs) (auto split: sum.splits)

lemma parse_lines_skip:
  assumes "parse_shadow_entry line = Inr None"
  shows "parse_lines (before @ line # after) = parse_lines (before @ after)"
  using assms by (simp add: parse_lines_def for_each_append split: sum.splits)

lemma sample_parse: "parse_shadow_entry sample_line = Inr (Some sample_entry)"
  by code_simp

lemma parse_accepts_any_cost:
  assumes "hash_field line = Some h" and "4 \<le> length (str_split CHR ''$'' h)"
    and "py_int (str_split CHR ''$'' h ! 2) = Some n"
  shows "\<exists>e. parse_shadow_entry line = Inr (Some e) \<and> workfactor e = n
           \<and> salt e = take 22 (str_split CHR ''$'' h ! 3)"
proof -
  from assms(1) have l: "length (str_split CHR '':'' (strip line)) = 2"
    and h: "str_split CHR '':'' (strip line) ! 1 = h"
    by (simp_all add: hash_field_Some)
  from l have ne: "strip line \<noteq> []" by auto
  show ?thesis using l h ne assms(2,3)
    by (simp add: parse_shadow_entry_def Let_def)
qed

section \<open>The credential record parser: properties\<close>

text \<open>
  Claim C4, amended. A line is rejected (the parser returns \<open>None\<close>) exactly when it
  lacks exactly one colon or its hash field has fewer than four \<open>$\<close>-delimited segments;
  a rejected line is skipped, and the batch is parsed as if the line were absent. Every
  other line whose cost field \<open>int\<close> accepts yields a record, whatever the sign of the
  cost and however short the salt and hash field is.
\<close>

theorem malformed_line_skipped:
  "(hash_field line = None \<longleftrightarrow> count_list line CHR '':'' \<noteq> 1)
   \<and> (parse_shadow_entry line = Inr None \<longleftrightarrow>
        (case hash_field line of None \<Rightarrow> True | Some h \<Rightarrow> length (str_split CHR ''$'' h) < 4))
   \<and> (parse_shadow_entry line = Inr None \<longrightarrow>
        parse_lines (before @ line # after) = parse_lines (before @ after))
   \<and> (\<forall>h n. hash_field line = Some h \<and> 4 \<le> length (str_split CHR ''$'' h)
          \<and> py_int (str_split CHR ''$'' h ! 2) = Some n \<longrightarrow>
        (\<exists>e. parse_shadow_entry line = Inr (Some e) \<and> workfactor e = n
          \<and> salt e = take 22 (str_split CHR ''$'' h ! 3)))"
proof (intro conjI allI impI)
  show "hash_field line = None \<longleftrightarrow> count_list line CHR '':'' \<noteq> 1"
    by (rule hash_field_None)
  show "parse_shadow_entry line = Inr None \<longleftrightarrow>
        (case hash_field line of None \<Rightarrow> True | Some h \<Rightarrow> length (str_split CHR ''$'' h) < 4)"
    by (rule parse_rejects_iff)
  show "parse_lines (before @ line # after) = parse_lines (before @ after)"
    if "parse_shadow_entry line = Inr None"
    using that by (rule parse_lines_skip)
  show "\<exists>e. parse_shadow_entry line = Inr (Some e) \<and> workfactor e = n
          \<and> salt e = take 22 (str_split CHR ''$'' h ! 3)"
    if "hash_field line = Some h \<and> 4 \<le> length (str_split CHR ''$'' h)
          \<and> py_int (str_split CHR ''$'' h ! 2) = Some n" for h n
    using that by (intro parse_accepts_any_cost) simp_all
qed

theorem malformed_line_skipped_witness:
  "count_list ''bob-no-colon-hash'' CHR '':'' \<noteq> 1
   \<and> hash_field ''bob-no-colon-hash'' = None
   \<and> parse_shadow_entry ''bob-no-colon-hash'' = Inr None
   \<and> parse_lines ([sample_line] @ ''bob-no-colon-hash'' # [sample_line]) =
       parse_lines ([sample_line] @ [sample_line])
   \<and> parse_lines ([sample_line] @ [sample_line]) = Inr [sample_entry, sample_entry]
   \<and> parse_shadow_file None
        (Some (sample_line @ CHR 0x0A # ''bob-no-colon-hash'' @ CHR 0x0A # sample_line)) =
       Inr [sample_entry, sample_entry]"
proof -
  note t = malformed_line_skipped [where line = "''bob-no-colon-hash''"
      and before = "[sample_line]" and after = "[sample_line]"]
  have c: "count_list ''bob-no-colon-hash'' CHR '':'' \<noteq> 1" by simp
  note n = t [THEN conjunct1, THEN iffD2, OF c]
  have "case hash_field ''bob-no-colon-hash'' of None \<Rightarrow> True
        | Some h \<Rightarrow> length (str_split CHR ''$'' h) < 4"
    by (simp add: n)
  note r = t [THEN conjunct2, THEN conjunct1, THEN iffD2, OF this]
  note s = t [THEN conjunct2, THEN conjunct2, THEN conjunct1, THEN mp, OF r]
  have p: "parse_lines ([sample_line] @ [sample_line]) = Inr [sample_entry, sample_entry]"
    by (simp add: parse_lines_def sample_parse)
  have f: "parse_shadow_file None
        (Some (sample_line @ CHR 0x0A # ''bob-no-colon-hash'' @ CHR 0x0A # sample_line)) =
       Inr [sample_entry, sample_entry]"
    by code_simp
  from c n r s p f show ?thesis by - (intro conjI, assumption+)
qed

text \<open>
  Claim C4 as stated fails: a line whose cost is zero and whose salt and hash field has
  five characters yields a record, and a line whose cost is not an integer ends the
  batch with \<open>ValueError\<close> instead of being skipped.
\<close>

theorem nonpositive_cost_and_short_salt_accepted:
  "parse_shadow_entry ''bob:$2b$0$short'' =
     Inr (Some \<lparr>user = ''bob'', algorithm = ''2b'', workfactor = 0, salt = ''short'',
                bcrypt_salt = ''$2b$0$short'', hash = [], full_hash = ''$2b$0$short''\<rparr>)
   \<and> parse_lines [''bob:$2b$xx$short'', sample_line] = Inl ValueError"
  by code_simp

text \<open>
  Claim C8, amended. For every line the parser accepts, \<open>bcrypt_salt\<close> splits at \<open>$\<close>
  into an empty segment, the algorithm, the cost text and the salt, which are the second
  and third segments of the original hash field and the first 22 characters of its
  fourth segment, character by character. When the hash field begins with \<open>$\<close>,
  \<open>bcrypt_salt\<close> is a prefix of it; when moreover the algorithm and the cost text have
  four characters together and the fourth segment has at least 22, \<open>bcrypt_salt\<close> is
  the first 29 characters of the hash field.
\<close>

theorem bcrypt_salt_round_trip:
  assumes "parse_shadow_entry line = Inr (Some e)"
  shows "hash_field line = Some (full_hash e)
       \<and> 4 \<le> length (segments e)
       \<and> algorithm e = segments e ! 1 \<and> cost_field e = segments e ! 2
       \<and> salt e = take 22 (segments e ! 3)
       \<and> str_split CHR ''$'' (bcrypt_salt e) = [[], algorithm e, cost_field e, salt e]
       \<and> (segments e ! 0 = [] \<longrightarrow> take (length (bcrypt_salt e)) (full_hash e) = bcrypt_salt e)
       \<and> (segments e ! 0 = [] \<and> length (algorithm e) + length (cost_field e) = 4
            \<and> 22 \<le> length (segments e ! 3) \<longrightarrow> bcrypt_salt e = take 29 (full_hash e))"
proof -
  note p = parse_accepts[OF assms]
  have pre: "take (length (bcrypt_salt e)) (full_hash e) = bcrypt_salt e" if "segments e ! 0 = []"
    using assms that by (rule bcrypt_salt_prefix)
  have "bcrypt_salt e = take 29 (full_hash e)"
    if h: "segments e ! 0 = [] \<and> length (algorithm e) + length (cost_field e) = 4
            \<and> 22 \<le> length (segments e ! 3)"
  proof -
    from h have "length (bcrypt_salt e) = 29"
      by (simp add: bcrypt_salt_length[OF assms])
    with pre h show ?thesis by simp
  qed
  with p(1,2,4,5) pre bcrypt_salt_split[OF assms] show ?thesis
    by (simp add: cost_field_def)
qed

theorem bcrypt_salt_round_trip_witness:
  "parse_shadow_entry sample_line = Inr (Some sample_entry)
   \<and> segments sample_entry ! 0 = []
   \<and> length (algorithm sample_entry) + length (cost_field sample_entry) = 4
   \<and> 22 \<le> length (segments sample_entry ! 3)
   \<and> str_split CHR ''$'' (bcrypt_salt sample_entry) = [[], ''2b'', ''08'', ''J9FW66ZdPI2nrIMcOxFYI.'']
   \<and> bcrypt_salt sample_entry = take 29 (full_hash sample_entry)"
proof -
  have a: "parse_shadow_entry sample_line = Inr (Some sample_entry)" by code_simp
  note t = bcrypt_salt_round_trip [OF a]
  have b: "segments sample_entry ! 0 = []" by code_simp
  have c: "length (algorithm sample_entry) + length (cost_field sample_entry) = 4" by code_simp
  have d: "22 \<le> length (segments sample_entry ! 3)" by code_simp
  have f: "[[], algorithm sample_entry, cost_field sample_entry, salt sample_entry] =
           [[], ''2b'', ''08'', ''J9FW66ZdPI2nrIMcOxFYI.'']" by code_simp
  from t have "str_split CHR ''$'' (bcrypt_salt sample_entry) =
      [[], algorithm sample_entry, cost_field sample_entry, salt sample_entry]" by (simp only:)
  with f have g: "str_split CHR ''$'' (bcrypt_salt sample_entry) =
      [[], ''2b'', ''08'', ''J9FW66ZdPI2nrIMcOxFYI.'']" by (simp only:)
  from b c d have "segments sample_entry ! 0 = []
      \<and> length (algorithm sample_entry) + length (cost_field sample_entry) = 4
      \<and> 22 \<le> length (segments sample_entry ! 3)" by (intro conjI)
  note eq = t [THEN conjunct2, THEN conjunct2, THEN conjunct2, THEN conjunct2, THEN conjunct2,
      THEN conjunct2, THEN conjunct2, THEN mp, OF this]
  from a b c d g eq show ?thesis by - (intro conjI, assumption+)
qed

text \<open>
  Claim C8 as stated fails on an accepted line whose cost has one digit:
  \<open>bcrypt_salt\<close> has 28 characters and differs from the first 29 of the hash field.
\<close>

theorem bcrypt_salt_not_first_29:
  "parse_shadow_entry ''Bilbo:$2b$8$J9FW66ZdPI2nrIMcOxFYI.qx268uZn'' =
     Inr (Some \<lparr>user = ''Bilbo'', algorithm = ''2b'', workfactor = 8,
                salt = ''J9FW66ZdPI2nrIMcOxFYI.'', bcrypt_salt = ''$2b$8$J9FW66ZdPI2nrIMcOxFYI.'',
                hash = ''qx268uZn'', full_hash = ''$2b$8$J9FW66ZdPI2nrIMcOxFYI.qx268uZn''\<rparr>)
   \<and> take 29 ''$2b$8$J9FW66ZdPI2nrIMcOxFYI.qx268uZn'' = ''$2b$8$J9FW66ZdPI2nrIMcOxFYI.q''
   \<and> ''$2b$8$J9FW66ZdPI2nrIMcOxFYI.'' \<noteq> ''$2b$8$J9FW66ZdPI2nrIMcOxFYI.q''"
  by code_simp

text \<open>
  Claim C9, amended. Every record the parser returns comes from a line with a hash field
  of at least four segments, which the record keeps as its full hash, and its cost factor
  is the integer that \<open>int\<close> reads from the third segment, the cost field of the line;
  it is positive whenever the cost field consists of decimal digits that are not all
  zero.
\<close>

theorem cost_factor_value:
  assumes "parse_shadow_entry line = Inr (Some e)"
  shows "\<exists>h. hash_field line = Some h \<and> full_hash e = h
           \<and> 4 \<le> length (str_split CHR ''$'' h)
           \<and> py_int (str_split CHR ''$'' h ! 2) = Some (workfactor e)
           \<and> ((\<forall>c\<in>set (str_split CHR ''$'' h ! 2). isdigit c)
                \<and> (\<exists>c\<in>set (str_split CHR ''$'' h ! 2). c \<noteq> CHR ''0'')
              \<longrightarrow> 0 < workfactor e)"
proof (intro exI conjI impI)
  note p = parse_accepts[OF assms]
  show "hash_field line = Some (full_hash e)" by (rule p(1))
  show "full_hash e = full_hash e" by (rule refl)
  show "4 \<le> length (str_split CHR ''$'' (full_hash e))"
    using p(2) by (simp add: segments_def)
  show v: "py_int (str_split CHR ''$'' (full_hash e) ! 2) = Some (workfactor e)"
    using p(3) by (simp add: segments_def)
  show "0 < workfactor e"
    if "(\<forall>c\<in>set (str_split CHR ''$'' (full_hash e) ! 2). isdigit c)
        \<and> (\<exists>c\<in>set (str_split CHR ''$'' (full_hash e) ! 2). c \<noteq> CHR ''0'')"
    using py_int_digits_positive[OF v] that by blast
qed

theorem cost_factor_value_witness:
  "parse_shadow_entry ''Fili:$2b$09$M9xNRFBDn0pUkPKIVCSBzuwNDDNTMWlvn7lezPr8IwVUsJbys3YZm'' =
     Inr (Some \<lparr>user = ''Fili'', algorithm = ''2b'', workfactor = 9,
                salt = ''M9xNRFBDn0pUkPKIVCSBzu'', bcrypt_salt = ''$2b$09$M9xNRFBDn0pUkPKIVCSBzu'',
                hash = ''wNDDNTMWlvn7lezPr8IwVUsJbys3YZm'',
                full_hash = ''$2b$09$M9xNRFBDn0pUkPKIVCSBzuwNDDNTMWlvn7lezPr8IwVUsJbys3YZm''\<rparr>)
   \<and> hash_field ''Fili:$2b$09$M9xNRFBDn0pUkPKIVCSBzuwNDDNTMWlvn7lezPr8IwVUsJbys3YZm'' =
       Some ''$2b$09$M9xNRFBDn0pUkPKIVCSBzuwNDDNTMWlvn7lezPr8IwVUsJbys3YZm''
   \<and> str_split CHR ''$'' ''$2b$09$M9xNRFBDn0pUkPKIVCSBzuwNDDNTMWlvn7lezPr8IwVUsJbys3YZm'' ! 2 = ''09''
   \<and> py_int ''09'' = Some 9
   \<and> (0::int) < 9"
proof -
  let ?l = "''Fili:$2b$09$M9xNRFBDn0pUkPKIVCSBzuwNDDNTMWlvn7lezPr8IwVUsJbys3YZm''"
  let ?h = "''$2b$09$M9xNRFBDn0pUkPKIVCSBzuwNDDNTMWlvn7lezPr8IwVUsJbys3YZm''"
  let ?e = "\<lparr>user = ''Fili'', algorithm = ''2b'', workfactor = 9,
                salt = ''M9xNRFBDn0pUkPKIVCSBzu'', bcrypt_salt = ''$2b$09$M9xNRFBDn0pUkPKIVCSBzu'',
                hash = ''wNDDNTMWlvn7lezPr8IwVUsJbys3YZm'', full_hash = ?h\<rparr>"
  have a: "parse_shadow_entry ?l = Inr (Some ?e)" by code_simp
  from cost_factor_value [OF a] obtain h where hf: "hash_field ?l = Some h"
    and fh: "full_hash ?e = h"
    and pv: "py_int (str_split CHR ''$'' h ! 2) = Some (workfactor ?e)"
    and pos: "(\<forall>c\<in>set (str_split CHR ''$'' h ! 2). isdigit c)
                \<and> (\<exists>c\<in>set (str_split CHR ''$'' h ! 2). c \<noteq> CHR ''0'')
              \<longrightarrow> 0 < workfactor ?e"
    by (elim exE conjE)
  from fh have h: "h = ?h" by simp
  have c: "str_split CHR ''$'' ?h ! 2 = ''09''" by code_simp
  have d: "(\<forall>c\<in>set ''09''. isdigit c) \<and> (\<exists>c\<in>set ''09''. c \<noteq> CHR ''0'')"
    by (simp add: isdigit_def)
  from hf have f: "hash_field ?l = Some ?h" by (simp only: h)
  from pv have p: "py_int ''09'' = Some 9" by (simp add: h c)
  from pos [unfolded h c, THEN mp, OF d] have g: "(0::int) < 9" by simp
  from a f c p g show ?thesis by - (intro conjI, assumption+)
qed

text \<open>
  Claim C9 as stated fails: the parser returns a record of cost \<open>-13\<close> for the cost
  field \<open>-13\<close> and a record of cost \<open>0\<close> for the cost field \<open>00\<close>.
\<close>

theorem cost_factor_not_positive:
  "parse_shadow_entry ''Durin:$2b$-13$6ypcazOOkUT/a7EwMuIjH.qbdqmHPDAC9B5c37RT9gEw18BX6FOay'' =
     Inr (Some \<lparr>user = ''Durin'', algorithm = ''2b'', workfactor = - 13,
                salt = ''6ypcazOOkUT/a7EwMuIjH.'', bcrypt_salt = ''$2b$-13$6ypcazOOkUT/a7EwMuIjH.'',
                hash = ''qbdqmHPDAC9B5c37RT9gEw18BX6FOay'',
                full_hash = ''$2b$-13$6ypcazOOkUT/a7EwMuIjH.qbdqmHPDAC9B5c37RT9gEw18BX6FOay''\<rparr>)
   \<and> parse_shadow_entry ''Durin:$2b$00$6ypcazOOkUT/a7EwMuIjH.qbdqmHPDAC9B5c37RT9gEw18BX6FOay'' =
     Inr (Some \<lparr>user = ''Durin'', algorithm = ''2b'', workfactor = 0,
                salt = ''6ypcazOOkUT/a7EwMuIjH.'', bcrypt_salt = ''$2b$00$6ypcazOOkUT/a7EwMuIjH.'',
                hash = ''qbdqmHPDAC9B5c37RT9gEw18BX6FOay'',
                full_hash = ''$2b$00$6ypcazOOkUT/a7EwMuIjH.qbdqmHPDAC9B5c37RT9gEw18BX6FOay''\<rparr>)"
  by code_simp

section \<open>The cracking orchestrators: auxiliary facts\<close>

lemma map_of_group_add:
  "map_of (group_add g e) k =
     (if k = workfactor e
      then Some ((case map_of g k of None \<Rightarrow> [] | Some l \<Rightarrow> l) @ [e])
      else map_of g k)"
  by (induction g e rule: group_add.induct) auto

lemma keys_group_add:
  "map fst (group_add g e) =
     (if workfactor e \<in> fst ` set g then map fst g else map fst g @ [workfactor e])"
  by (induction g e rule: group_add.induct) (auto simp: image_iff)

lemma workfactor_groups_snoc:
  "workfactor_groups (es @ [e]) = group_add (workfactor_groups es) e"
  by (simp add: workfactor_groups_def)

lemma map_of_workfactor_groups:
  "map_of (workfactor_groups es) k =
     (if k \<in> workfactor ` set es then Some (filter (\<lambda>e. workfactor e = k) es) else None)"
proof (induction es rule: rev_induct)
  case Nil
  show ?case by (simp add: workfactor_groups_def)
next
  case (snoc e es)
  show ?case
  proof (cases "k = workfactor e")
    case True
    have "(case map_of (workfactor_groups es) k of None \<Rightarrow> [] | Some l \<Rightarrow> l) =
          filter (\<lambda>e. workfactor e = k) es"
    proof (cases "k \<in> workfactor ` set es")
      case True
      then show ?thesis by (simp add: snoc.IH)
    next
      case False
      then have "filter (\<lambda>e. workfactor e = k) es = []"
        by (auto simp: filter_empty_conv)
      with False show ?thesis by (simp add: snoc.IH)
    qed
    with True show ?thesis
      by (simp add: workfactor_groups_snoc map_of_group_add)
  next
    case False
    then have "filter (\<lambda>e. workfactor e = k) (es @ [e]) = filter (\<lambda>e. workfactor e = k) es"
      by auto
    moreover from False have "k \<in> workfactor ` set (es @ [e]) \<longleftrightarrow> k \<in> workfactor ` set es"
      by auto
    ultimately show ?thesis using False
      by (simp only: workfactor_groups_snoc map_of_group_add snoc.IH if_False)
  qed
qed

lemma keys_workfactor_groups:
  "set (map fst (workfactor_groups es)) = workfactor ` set es
   \<and> distinct (map fst (workfactor_groups es))"
proof (induction es rule: rev_induct)
  case Nil
  show ?case by (simp add: workfactor_groups_def)
next
  case (snoc e es)
  then show ?case
    by (auto simp: workfactor_groups_snoc keys_group_add)
qed

lemma sorted_workfactors_set: "set (sorted_workfactors es) = workfactor ` set es"
  using keys_workfactor_groups[of es] by (simp add: sorted_workfactors_def)

lemma sorted_workfactors_distinct: "distinct (sorted_workfactors es)"
  using keys_workfactor_groups[of es] by (simp add: sorted_workfactors_def)

lemma sorted_workfactors_sorted: "sorted (sorted_workfactors es)"
  by (simp add: sorted_workfactors_def)

lemma sorted_workfactors_strict: "sorted_wrt (<) (sorted_workfactors es)"
  using sorted_workfactors_sorted sorted_workfactors_distinct
  by (simp add: strict_sorted_iff)

lemma sorted_workfactors_same_set:
  assumes "set es' = set es"
  shows "sorted_workfactors es' = sorted_workfactors es"
proof (rule sorted_distinct_set_unique)
  show "set (sorted_workfactors es') = set (sorted_workfactors es)"
    using assms by (simp add: sorted_workfactors_set)
qed (simp_all add: sorted_workfactors_sorted sorted_workfactors_distinct)

lemma group_of_key:
  assumes "k \<in> set (sorted_workfactors es)"
  shows "group_of es k = Inr (filter (\<lambda>e. workfactor e = k) es)"
  using assms by (simp add: group_of_def map_of_workfactor_groups sorted_workfactors_set)

lemma for_each_all_Inr:
  "(\<And>x. x \<in> set xs \<Longrightarrow> body x = Inr (g x)) \<Longrightarrow> for_each body xs = Inr (concat (map g xs))"
  by (induction xs) simp_all

lemma crack_entry_parallel_expected:
  assumes "1 \<le> n"
  shows "crack_entry_parallel chk wl n (workfactor e) e = Inr [expected_result chk wl e]"
  by (cases "find_idx (\<lambda>w. check_password_checkpw chk w (full_hash e)) wl")
     (simp_all add: crack_entry_parallel_def crack_user_parallel_find[OF assms] expected_result_def)

lemma parallel_run:
  assumes "1 \<le> n"
  shows "for_each (\<lambda>key. case group_of es key of
                     Inl e \<Rightarrow> Inl e
                   | Inr members \<Rightarrow> for_each (crack_entry_parallel chk wl n key) members)
           (sorted_workfactors es) =
         Inr (concat (map (\<lambda>key. map (expected_result chk wl) (filter (\<lambda>e. workfactor e = key) es))
                (sorted_workfactors es)))"
proof (rule for_each_all_Inr)
  fix key assume k: "key \<in> set (sorted_workfactors es)"
  have "for_each (crack_entry_parallel chk wl n key) (filter (\<lambda>e. workfactor e = key) es) =
        Inr (concat (map (\<lambda>e. [expected_result chk wl e]) (filter (\<lambda>e. workfactor e = key) es)))"
  proof (rule for_each_all_Inr)
    fix e assume "e \<in> set (filter (\<lambda>e. workfactor e = key) es)"
    then have "workfactor e = key" by simp
    with crack_entry_parallel_expected[OF assms, of chk wl e]
    show "crack_entry_parallel chk wl n key e = Inr [expected_result chk wl e]" by simp
  qed
  then show "(case group_of es key of
                     Inl e \<Rightarrow> Inl e
                   | Inr members \<Rightarrow> for_each (crack_entry_parallel chk wl n key) members) =
        Inr (map (expected_result chk wl) (filter (\<lambda>e. workfactor e = key) es))"
    by (simp add: group_of_key[OF k] concat_single)
qed

lemma sum_single_key:
  "distinct ks \<Longrightarrow> a \<in> set ks \<Longrightarrow>
     (\<Sum>k\<leftarrow>ks. if a = k then {#x#} else {#}) = {#x#}"
proof (induction ks)
  case Nil
  then show ?case by simp
next
  case (Cons k ks)
  show ?case
  proof (cases "a = k")
    case True
    with Cons.prems have "a \<notin> set ks" by simp
    then have "(\<Sum>k\<leftarrow>ks. if a = k then {#x#} else {#}) = {#}"
      by (induction ks) auto
    with True show ?thesis by simp
  next
    case False
    with Cons show ?thesis by simp
  qed
qed

lemma groups_partition:
  assumes "distinct ks" and "f ` set es \<subseteq> set ks"
  shows "(\<Sum>k\<leftarrow>ks. mset (map g (filter (\<lambda>e. f e = k) es))) = mset (map g es)"
  using assms(2)
proof (induction es)
  case Nil
  show ?case by (induction ks) simp_all
next
  case (Cons e es)
  then have in_ks: "f e \<in> set ks" and rest: "f ` set es \<subseteq> set ks" by simp_all
  have "(\<Sum>k\<leftarrow>ks. mset (map g (filter (\<lambda>e. f e = k) (e # es)))) =
        (\<Sum>k\<leftarrow>ks. (if f e = k then {#g e#} else {#}) + mset (map g (filter (\<lambda>e. f e = k) es)))"
    by (intro arg_cong[where f = sum_list] map_cong) auto
  also have "\<dots> = (\<Sum>k\<leftarrow>ks. if f e = k then {#g e#} else {#})
        + (\<Sum>k\<leftarrow>ks. mset (map g (filter (\<lambda>e. f e = k) es)))"
    by (rule sum_list_addf)
  also have "\<dots> = {#g e#} + mset (map g es)"
    by (simp only: sum_single_key[OF assms(1) in_ks] Cons.IH[OF rest])
  finally show ?case by simp
qed

lemma mset_concat_groups:
  assumes "\<And>k. k \<in> set (sorted_workfactors es) \<Longrightarrow>
      mset (h k) = mset (map g (filter (\<lambda>e. workfactor e = k) es))"
  shows "mset (concat (map h (sorted_workfactors es))) = mset (map g es)"
proof -
  have "mset (concat (map h (sorted_workfactors es))) = (\<Sum>k\<leftarrow>sorted_workfactors es. mset (h k))"
    by (simp add: mset_concat comp_def)
  also have "\<dots> = (\<Sum>k\<leftarrow>sorted_workfactors es. mset (map g (filter (\<lambda>e. workfactor e = k) es)))"
    using assms by (intro arg_cong[where f = sum_list] map_cong) auto
  also have "\<dots> = mset (map g es)"
    by (rule groups_partition) (simp_all add: sorted_workfactors_distinct sorted_workfactors_set)
  finally show ?thesis .
qed

lemma mset_map_filter_split:
  "mset (map f (filter P xs)) + mset (map f (filter (\<lambda>x. \<not> P x) xs)) = mset (map f xs)"
  by (induction xs) simp_all

lemma delete_found:
  assumes "distinct (map fst rem)"
  shows "filter (\<lambda>(u, e). u \<notin> set (map fst (filter P rem))) rem = filter (\<lambda>x. \<not> P x) rem"
proof (rule filter_cong[OF refl])
  fix x assume x: "x \<in> set rem"
  obtain u e where ue: "x = (u, e)" by (cases x)
  have "u \<in> fst ` set (filter P rem) \<longleftrightarrow> P (u, e)"
  proof
    assume "u \<in> fst ` set (filter P rem)"
    then obtain e' where e': "(u, e') \<in> set rem" and p: "P (u, e')" by auto
    from eq_key_imp_eq_value[OF assms e'] x ue have "e' = e" by simp
    with p show "P (u, e)" by simp
  next
    assume "P (u, e)"
    with x ue show "u \<in> fst ` set (filter P rem)" by force
  qed
  then show "(case x of (u, e) \<Rightarrow> u \<notin> set (map fst (filter P rem))) = (\<not> P x)"
    by (simp add: ue)
qed

lemma scan_expected_hit:
  "check_password_checkpw chk w (full_hash (snd pe)) \<Longrightarrow>
     scan_expected chk key n (w # ws) i pe =
       \<lparr>result_user = fst pe, password = Some w, attempts = i + 1, result_workfactor = key\<rparr>"
  by (simp add: scan_expected_def)

lemma scan_expected_miss:
  "\<not> check_password_checkpw chk w (full_hash (snd pe)) \<Longrightarrow>
     scan_expected chk key n (w # ws) i pe = scan_expected chk key n ws (Suc i) pe"
  by (simp add: scan_expected_def split: option.splits)

lemma scan_expected_Nil:
  "scan_expected chk key n [] i pe =
     \<lparr>result_user = fst pe, password = None, attempts = n, result_workfactor = key\<rparr>"
  by (simp add: scan_expected_def)

lemma crack_group_scan_mset:
  assumes "distinct (map fst rem)"
  shows "mset (fst (crack_group_scan chk key i ws rem))
       + mset (map (\<lambda>(u, e). \<lparr>result_user = u, password = None, attempts = n,
                                 result_workfactor = key\<rparr>)
                (snd (crack_group_scan chk key i ws rem)))
       = mset (map (scan_expected chk key n ws i) rem)"
  using assms
proof (induction ws arbitrary: i rem)
  case Nil
  have "(\<lambda>(u, e). \<lparr>result_user = u, password = None, attempts = n, result_workfactor = key\<rparr>)
        = scan_expected chk key n [] i"
    by (simp add: fun_eq_iff scan_expected_Nil)
  then show ?case by simp
next
  case (Cons w ws)
  show ?case
  proof (cases "rem = []")
    case True
    then show ?thesis by simp
  next
    case False
    let ?P = "\<lambda>x. check_password_checkpw chk w (full_hash (snd x))"
    let ?found = "filter ?P rem"
    let ?still = "filter (\<lambda>x. \<not> ?P x) rem"
    let ?nf = "\<lambda>(u, e). \<lparr>result_user = u, password = None, attempts = n, result_workfactor = key\<rparr>"
    have P: "(\<lambda>(u, entry). check_password_checkpw chk w (full_hash entry)) = ?P"
      by (simp add: fun_eq_iff)
    have del: "filter (\<lambda>(u, e). u \<notin> set (map fst ?found)) rem = ?still"
      using Cons.prems by (rule delete_found)
    have app: "map (\<lambda>(u, entry). \<lparr>result_user = u, password = Some w, attempts = i + 1,
                                   result_workfactor = key\<rparr>) ?found
               = map (scan_expected chk key n (w # ws) i) ?found"
      by (rule map_cong) (auto simp: scan_expected_hit)
    have later: "map (scan_expected chk key n ws (Suc i)) ?still
               = map (scan_expected chk key n (w # ws) i) ?still"
      by (rule map_cong) (auto simp: scan_expected_miss)
    have d: "distinct (map fst ?still)" using Cons.prems by (rule distinct_map_filter)
    obtain l r where rec: "crack_group_scan chk key (Suc i) ws ?still = (l, r)"
      by (cases "crack_group_scan chk key (Suc i) ws ?still")
    from Cons.IH[OF d, of "Suc i"] rec
    have ih: "mset l + mset (map ?nf r) = mset (map (scan_expected chk key n (w # ws) i) ?still)"
      by (simp add: later)
    have "crack_group_scan chk key i (w # ws) rem =
          (case crack_group_scan chk key (Suc i) ws
                  (filter (\<lambda>(u, e). u \<notin> set (map fst ?found)) rem) of
             (later, left) \<Rightarrow>
               (map (\<lambda>(u, entry). \<lparr>result_user = u, password = Some w, attempts = i + 1,
                                       result_workfactor = key\<rparr>) ?found @ later, left))"
      by (simp only: crack_group_scan.simps Let_def P if_not_P[OF False])
    then have "crack_group_scan chk key i (w # ws) rem =
          (map (scan_expected chk key n (w # ws) i) ?found @ l, r)"
      by (simp only: del app rec prod.case)
    then have "mset (fst (crack_group_scan chk key i (w # ws) rem))
       + mset (map ?nf (snd (crack_group_scan chk key i (w # ws) rem)))
       = mset (map (scan_expected chk key n (w # ws) i) ?found) + (mset l + mset (map ?nf r))"
      by simp
    also have "\<dots> = mset (map (scan_expected chk key n (w # ws) i) rem)"
      by (simp only: ih mset_map_filter_split)
    finally show ?thesis .
  qed
qed

lemma dict_set_fresh: "k \<notin> fst ` set d \<Longrightarrow> dict_set d k v = d @ [(k, v)]"
  by (induction d k v rule: dict_set.induct) auto

lemma remaining_dict_distinct:
  "distinct (map user g) \<Longrightarrow> remaining_dict g = map (\<lambda>e. (user e, e)) g"
proof (induction g rule: rev_induct)
  case Nil
  show ?case by (simp add: remaining_dict_def)
next
  case (snoc e g)
  then have ih: "remaining_dict g = map (\<lambda>e. (user e, e)) g" and fresh: "user e \<notin> user ` set g"
    by simp_all
  have "remaining_dict (g @ [e]) = dict_set (remaining_dict g) (user e) e"
    by (simp add: remaining_dict_def)
  also have "\<dots> = remaining_dict g @ [(user e, e)]"
    using fresh by (intro dict_set_fresh) (simp add: ih image_image)
  finally show ?case by (simp add: ih)
qed

lemma crack_group_mset:
  assumes "distinct (map user g)" and "\<forall>e\<in>set g. workfactor e = key"
  shows "mset (crack_group chk wl key g) = mset (map (expected_result chk wl) g)"
proof -
  let ?rem = "map (\<lambda>e. (user e, e)) g"
  have d: "distinct (map fst ?rem)" using assms(1) by (simp add: comp_def)
  obtain found left where sc: "crack_group_scan chk key 0 wl ?rem = (found, left)"
    by (cases "crack_group_scan chk key 0 wl ?rem")
  have "mset (crack_group chk wl key g) =
        mset found + mset (map (\<lambda>(u, e). \<lparr>result_user = u, password = None,
            attempts = length wl, result_workfactor = key\<rparr>) left)"
    by (simp add: crack_group_def remaining_dict_distinct[OF assms(1)] sc)
  also have "\<dots> = mset (map (scan_expected chk key (length wl) wl 0) ?rem)"
    using crack_group_scan_mset[OF d, of chk key 0 wl "length wl"] by (simp add: sc)
  also have "map (scan_expected chk key (length wl) wl 0) ?rem = map (expected_result chk wl) g"
    using assms(2) by (auto simp: scan_expected_def expected_result_def split: option.splits)
  finally show ?thesis .
qed

lemma serial_run:
  "crack_by_workfactor_group chk es wl =
     Inr (concat (map (\<lambda>key. crack_group chk wl key (filter (\<lambda>e. workfactor e = key) es))
            (sorted_workfactors es)))"
  unfolding crack_by_workfactor_group_def
  by (rule for_each_all_Inr) (simp add: group_of_key)

lemma serial_mset:
  assumes "distinct (map user es)"
  shows "mset (concat (map (\<lambda>key. crack_group chk wl key (filter (\<lambda>e. workfactor e = key) es))
            (sorted_workfactors es))) = mset (map (expected_result chk wl) es)"
proof (rule mset_concat_groups)
  fix k
  show "mset (crack_group chk wl k (filter (\<lambda>e. workfactor e = k) es)) =
        mset (map (expected_result chk wl) (filter (\<lambda>e. workfactor e = k) es))"
    using assms by (intro crack_group_mset) (simp_all add: distinct_map_filter)
qed

lemma parallel_mset:
  "mset (concat (map (\<lambda>key. map (expected_result chk wl) (filter (\<lambda>e. workfactor e = key) es))
            (sorted_workfactors es))) = mset (map (expected_result chk wl) es)"
  by (rule mset_concat_groups) simp

lemma expected_result_found:
  assumes "k < length wl" and "check_password_checkpw chk (wl ! k) (full_hash e)"
    and "\<forall>j<k. \<not> check_password_checkpw chk (wl ! j) (full_hash e)"
  shows "expected_result chk wl e =
     \<lparr>result_user = user e, password = Some (wl ! k), attempts = k + 1,
      result_workfactor = workfactor e\<rparr>"
proof -
  have "find_idx (\<lambda>w. check_password_checkpw chk w (full_hash e)) wl = Some k"
    using assms by (simp add: find_idx_Some)
  then show ?thesis by (simp add: expected_result_def)
qed

lemma expected_result_exhausted:
  assumes "\<forall>w\<in>set wl. \<not> check_password_checkpw chk w (full_hash e)"
  shows "expected_result chk wl e =
     \<lparr>result_user = user e, password = None, attempts = length wl,
      result_workfactor = workfactor e\<rparr>"
proof -
  have "find_idx (\<lambda>w. check_password_checkpw chk w (full_hash e)) wl = None"
    using assms by (simp add: find_idx_None)
  then show ?thesis by (simp add: expected_result_def)
qed

lemma for_each_all:
  assumes "for_each body xs = Inr rs"
    and "\<And>x out. x \<in> set xs \<Longrightarrow> body x = Inr out \<Longrightarrow> \<forall>r\<in>set out. Q r"
  shows "\<forall>r\<in>set rs. Q r"
  using assms
proof (induction xs arbitrary: rs)
  case Nil
  then show ?case by simp
next
  case (Cons x xs)
  from Cons.prems(1) obtain a b where a: "body x = Inr a" and b: "for_each body xs = Inr b"
    and rs: "rs = a @ b"
    by (auto split: sum.splits)
  from Cons.prems(2)[OF _ a] have "\<forall>r\<in>set a. Q r" by simp
  moreover have "\<forall>r\<in>set b. Q r"
  proof (rule Cons.IH[OF b])
    fix y out assume "y \<in> set xs" and "body y = Inr out"
    then show "\<forall>r\<in>set out. Q r" using Cons.prems(2)[of y out] by simp
  qed
  ultimately show ?case by (auto simp: rs)
qed

lemma for_each_sorted:
  fixes g :: "'b \<Rightarrow> int"
  assumes "for_each body ks = Inr rs" and "sorted ks"
    and "\<And>k out. k \<in> set ks \<Longrightarrow> body k = Inr out \<Longrightarrow> \<forall>r\<in>set out. g r = k"
  shows "sorted (map g rs) \<and> g ` set rs \<subseteq> set ks"
  using assms
proof (induction ks arbitrary: rs)
  case Nil
  then show ?case by simp
next
  case (Cons k ks)
  from Cons.prems(1) obtain a b where a: "body k = Inr a" and b: "for_each body ks = Inr b"
    and rs: "rs = a @ b"
    by (auto split: sum.splits)
  from Cons.prems(3)[OF _ a] have ga: "\<forall>r\<in>set a. g r = k" by simp
  from Cons.prems(2) have sk: "sorted ks" and le: "\<forall>k'\<in>set ks. k \<le> k'" by simp_all
  from Cons.IH[OF b sk] Cons.prems(3) have ih: "sorted (map g b)" "g ` set b \<subseteq> set ks" by simp_all
  have "sorted (map g a)" using ga by (induction a) auto
  moreover have "\<forall>x\<in>set (map g a). \<forall>y\<in>set (map g b). x \<le> y"
    using ga ih(2) le by auto
  ultimately have "sorted (map g a @ map g b)" using ih(1) by (simp add: sorted_append)
  moreover have "g ` set rs \<subseteq> set (k # ks)" using ga ih(2) by (auto simp: rs)
  ultimately show ?case by (simp add: rs)
qed

lemma crack_group_scan_key:
  "\<forall>r\<in>set (fst (crack_group_scan chk key i ws rem)). result_workfactor r = key"
proof (induction ws arbitrary: i rem)
  case Nil
  show ?case by simp
next
  case (Cons w ws)
  show ?case
  proof (cases "rem = []")
    case True
    then show ?thesis by simp
  next
    case False
    let ?still = "filter (\<lambda>(u, entry). u \<notin> set (map fst
        (filter (\<lambda>(u, entry). check_password_checkpw chk w (full_hash entry)) rem))) rem"
    obtain l r where rec: "crack_group_scan chk key (Suc i) ws ?still = (l, r)"
      by (cases "crack_group_scan chk key (Suc i) ws ?still")
    from Cons.IH[of "Suc i" ?still] rec have "\<forall>r\<in>set l. result_workfactor r = key" by simp
    moreover have "fst (crack_group_scan chk key i (w # ws) rem) =
        map (\<lambda>(u, entry). \<lparr>result_user = u, password = Some w, attempts = i + 1,
                             result_workfactor = key\<rparr>)
          (filter (\<lambda>(u, entry). check_password_checkpw chk w (full_hash entry)) rem) @ l"
      by (simp only: crack_group_scan.simps Let_def if_not_P[OF False] rec prod.case fst_conv)
    ultimately show ?thesis by auto
  qed
qed

lemma crack_group_key: "\<forall>r\<in>set (crack_group chk wl key g). result_workfactor r = key"
proof -
  obtain found left where sc: "crack_group_scan chk key 0 wl (remaining_dict g) = (found, left)"
    by (cases "crack_group_scan chk key 0 wl (remaining_dict g)")
  with crack_group_scan_key[of chk key 0 wl "remaining_dict g"]
  have "\<forall>r\<in>set found. result_workfactor r = key" by simp
  then show ?thesis by (auto simp: crack_group_def sc)
qed

lemma crack_entry_parallel_key:
  "crack_entry_parallel chk wl n key e = Inr out \<Longrightarrow> \<forall>r\<in>set out. result_workfactor r = key"
  by (auto simp: crack_entry_parallel_def split: sum.splits option.splits)

lemma serial_sorted:
  assumes "crack_by_workfactor_group chk es wl = Inr rs"
  shows "sorted (map result_workfactor rs)"
proof -
  have "sorted (map result_workfactor rs) \<and> result_workfactor ` set rs \<subseteq> set (sorted_workfactors es)"
  proof (rule for_each_sorted[OF assms[unfolded crack_by_workfactor_group_def]])
    show "sorted (sorted_workfactors es)" by (rule sorted_workfactors_sorted)
  next
    fix k out
    assume "(case group_of es k of Inl e \<Rightarrow> Inl e
             | Inr members \<Rightarrow> Inr (crack_group chk wl k members)) = Inr out"
    then show "\<forall>r\<in>set out. result_workfactor r = k"
      using crack_group_key by (auto split: sum.splits)
  qed
  then show ?thesis by simp
qed

lemma parallel_sorted:
  assumes "crack_by_workfactor_group_parallel chk cpus es wl np = Inr rs"
  shows "sorted (map result_workfactor rs)"
proof -
  let ?n = "case np of None \<Rightarrow> cpus | Some given \<Rightarrow> given"
  have "sorted (map result_workfactor rs) \<and> result_workfactor ` set rs \<subseteq> set (sorted_workfactors es)"
  proof (rule for_each_sorted[OF assms[unfolded crack_by_workfactor_group_parallel_def Let_def]])
    show "sorted (sorted_workfactors es)" by (rule sorted_workfactors_sorted)
  next
    fix k out
    assume "(case group_of es k of Inl e \<Rightarrow> Inl e
             | Inr members \<Rightarrow> for_each (crack_entry_parallel chk wl ?n k) members) = Inr out"
    then obtain members where "for_each (crack_entry_parallel chk wl ?n k) members = Inr out"
      by (auto split: sum.splits)
    then show "\<forall>r\<in>set out. result_workfactor r = k"
      by (rule for_each_all) (rule crack_entry_parallel_key)
  qed
  then show ?thesis by simp
qed

lemma for_each_cong:
  "(\<And>x. x \<in> set xs \<Longrightarrow> f x = g x) \<Longrightarrow> for_each f xs = for_each g xs"
proof (induction xs)
  case Nil
  show ?case by simp
next
  case (Cons a xs)
  have "f a = g a" using Cons.prems by simp
  moreover have "for_each f xs = for_each g xs" using Cons.prems by (intro Cons.IH) simp
  ultimately show ?case by (simp split: sum.splits)
qed

lemma parallel_by_groups:
  "crack_by_workfactor_group_parallel chk cpus es wl np =
     for_each (\<lambda>key. for_each (crack_entry_parallel chk wl
                                  (case np of None \<Rightarrow> cpus | Some given \<Rightarrow> given) key)
                       (filter (\<lambda>e. workfactor e = key) es))
       (sorted_workfactors es)"
  unfolding crack_by_workfactor_group_parallel_def Let_def
  by (rule for_each_cong) (simp add: group_of_key)

lemma expected_result_fields:
  "result_user (expected_result chk wl e) = user e
   \<and> result_workfactor (expected_result chk wl e) = workfactor e"
  by (simp add: expected_result_def split: option.splits)

lemma parallel_keys_users:
  assumes "1 \<le> (case np of None \<Rightarrow> cpus | Some given \<Rightarrow> given)"
  shows "\<exists>rs. crack_by_workfactor_group_parallel chk cpus es wl np = Inr rs
           \<and> map (\<lambda>r. (result_workfactor r, result_user r)) rs =
               concat (map (\<lambda>key. map (\<lambda>e. (key, user e)) (filter (\<lambda>e. workfactor e = key) es))
                 (sorted_workfactors es))"
proof -
  let ?rs = "concat (map (\<lambda>key. map (expected_result chk wl) (filter (\<lambda>e. workfactor e = key) es))
                (sorted_workfactors es))"
  have r: "crack_by_workfactor_group_parallel chk cpus es wl np = Inr ?rs"
    by (simp add: crack_by_workfactor_group_parallel_def Let_def parallel_run[OF assms])
  have k: "map (\<lambda>x. (result_workfactor (expected_result chk wl x),
                       result_user (expected_result chk wl x)))
          (filter (\<lambda>e. workfactor e = key) es) =
        map (\<lambda>e. (key, user e)) (filter (\<lambda>e. workfactor e = key) es)" for key
    by (rule map_cong) (simp_all add: expected_result_fields)
  have "map (\<lambda>r. (result_workfactor r, result_user r)) ?rs =
      concat (map (\<lambda>key. map (\<lambda>x. (result_workfactor (expected_result chk wl x),
                                        result_user (expected_result chk wl x)))
                            (filter (\<lambda>e. workfactor e = key) es))
        (sorted_workfactors es))"
    by (simp add: map_concat comp_def)
  then have "map (\<lambda>r. (result_workfactor r, result_user r)) ?rs =
      concat (map (\<lambda>key. map (\<lambda>e. (key, user e)) (filter (\<lambda>e. workfactor e = key) es))
        (sorted_workfactors es))"
    by (simp only: k)
  with r show ?thesis by blast
qed

section \<open>The cracking orchestrators: properties\<close>

text \<open>
  For every worker count \<open>N \<ge> 1\<close> the parallel orchestrator returns one result per
  record, the expected one: when words of the corpus verify against the record's full
  hash, the result carries the first of them as password and its position counted from
  one as attempts; when none verifies, it carries no password and the length of the
  corpus as attempts. The sequential orchestrator does the same when the user names of
  the batch are distinct.
\<close>

lemma crack_results_distinct_users:
  assumes "1 \<le> (case num_processes of None \<Rightarrow> cpus | Some given \<Rightarrow> given)"
  shows "(\<exists>rs. crack_by_workfactor_group_parallel checkpw cpus entries word_list num_processes = Inr rs
            \<and> mset rs = mset (map (expected_result checkpw word_list) entries))
       \<and> (distinct (map user entries) \<longrightarrow>
            (\<exists>rs. crack_by_workfactor_group checkpw entries word_list = Inr rs
              \<and> mset rs = mset (map (expected_result checkpw word_list) entries)))
       \<and> (\<forall>e k. k < length word_list
              \<and> check_password_checkpw checkpw (word_list ! k) (full_hash e)
              \<and> (\<forall>j<k. \<not> check_password_checkpw checkpw (word_list ! j) (full_hash e))
            \<longrightarrow> expected_result checkpw word_list e =
                  \<lparr>result_user = user e, password = Some (word_list ! k), attempts = k + 1,
                   result_workfactor = workfactor e\<rparr>)
       \<and> (\<forall>e. (\<forall>w\<in>set word_list. \<not> check_password_checkpw checkpw w (full_hash e))
            \<longrightarrow> expected_result checkpw word_list e =
                  \<lparr>result_user = user e, password = None, attempts = length word_list,
                   result_workfactor = workfactor e\<rparr>)"
proof (intro conjI allI impI)
  show "\<exists>rs. crack_by_workfactor_group_parallel checkpw cpus entries word_list num_processes = Inr rs
            \<and> mset rs = mset (map (expected_result checkpw word_list) entries)"
    by (simp add: crack_by_workfactor_group_parallel_def Let_def parallel_run[OF assms] parallel_mset)
  show "\<exists>rs. crack_by_workfactor_group checkpw entries word_list = Inr rs
            \<and> mset rs = mset (map (expected_result checkpw word_list) entries)"
    if "distinct (map user entries)"
    by (simp add: serial_run serial_mset[OF that])
  show "expected_result checkpw word_list e =
          \<lparr>result_user = user e, password = Some (word_list ! k), attempts = k + 1,
           result_workfactor = workfactor e\<rparr>"
    if "k < length word_list
         \<and> check_password_checkpw checkpw (word_list ! k) (full_hash e)
         \<and> (\<forall>j<k. \<not> check_password_checkpw checkpw (word_list ! j) (full_hash e))" for e k
    using that by (intro expected_result_found) simp_all
  show "expected_result checkpw word_list e =
          \<lparr>result_user = user e, password = None, attempts = length word_list,
           result_workfactor = workfactor e\<rparr>"
    if "\<forall>w\<in>set word_list. \<not> check_password_checkpw checkpw w (full_hash e)" for e
    using that by (rule expected_result_exhausted)
qed


text \<open>
  Claim C6. Whatever the records, the cost factors are processed in strictly ascending
  order: the list of keys the orchestrators loop over is strictly increasing, holds
  exactly the cost factors of the records, and is the same for every reordering of the
  input. The sequential orchestrator's results are the groups' results put end to end in
  that order. The parallel orchestrator runs, key after key in that order, the records
  of that cost factor in their input order; for a worker count \<open>N \<ge> 1\<close> it returns one
  result per record in that very order. The results of both orchestrators are in
  ascending order of cost.
\<close>

theorem groups_in_ascending_cost_order:
  "sorted_wrt (<) (sorted_workfactors entries)
   \<and> set (sorted_workfactors entries) = workfactor ` set entries
   \<and> (mset entries' = mset entries \<longrightarrow> sorted_workfactors entries' = sorted_workfactors entries)
   \<and> crack_by_workfactor_group checkpw entries word_list =
       Inr (concat (map (\<lambda>key. crack_group checkpw word_list key
                                  (filter (\<lambda>e. workfactor e = key) entries))
              (sorted_workfactors entries)))
   \<and> (\<forall>rs. crack_by_workfactor_group checkpw entries word_list = Inr rs
         \<longrightarrow> sorted (map result_workfactor rs))
   \<and> (\<forall>rs. crack_by_workfactor_group_parallel checkpw cpus entries word_list num_processes = Inr rs
         \<longrightarrow> sorted (map result_workfactor rs))
   \<and> crack_by_workfactor_group_parallel checkpw cpus entries word_list num_processes =
       for_each (\<lambda>key. for_each (crack_entry_parallel checkpw word_list
                                    (case num_processes of None \<Rightarrow> cpus | Some given \<Rightarrow> given) key)
                         (filter (\<lambda>e. workfactor e = key) entries))
         (sorted_workfactors entries)
   \<and> (1 \<le> (case num_processes of None \<Rightarrow> cpus | Some given \<Rightarrow> given) \<longrightarrow>
        (\<exists>rs. crack_by_workfactor_group_parallel checkpw cpus entries word_list num_processes = Inr rs
           \<and> map (\<lambda>r. (result_workfactor r, result_user r)) rs =
               concat (map (\<lambda>key. map (\<lambda>e. (key, user e)) (filter (\<lambda>e. workfactor e = key) entries))
                 (sorted_workfactors entries))))"
proof (intro conjI allI impI)
  show "sorted_wrt (<) (sorted_workfactors entries)" by (rule sorted_workfactors_strict)
  show "set (sorted_workfactors entries) = workfactor ` set entries" by (rule sorted_workfactors_set)
  show "sorted_workfactors entries' = sorted_workfactors entries" if "mset entries' = mset entries"
    using mset_eq_setD[OF that] by (rule sorted_workfactors_same_set)
  show "crack_by_workfactor_group checkpw entries word_list =
       Inr (concat (map (\<lambda>key. crack_group checkpw word_list key
                                  (filter (\<lambda>e. workfactor e = key) entries))
              (sorted_workfactors entries)))"
    by (rule serial_run)
  show "sorted (map result_workfactor rs)"
    if "crack_by_workfactor_group checkpw entries word_list = Inr rs" for rs
    using that by (rule serial_sorted)
  show "sorted (map result_workfactor rs)"
    if "crack_by_workfactor_group_parallel checkpw cpus entries word_list num_processes = Inr rs" for rs
    using that by (rule parallel_sorted)
  show "crack_by_workfactor_group_parallel checkpw cpus entries word_list num_processes =
       for_each (\<lambda>key. for_each (crack_entry_parallel checkpw word_list
                                    (case num_processes of None \<Rightarrow> cpus | Some given \<Rightarrow> given) key)
                         (filter (\<lambda>e. workfactor e = key) entries))
         (sorted_workfactors entries)"
    by (rule parallel_by_groups)
  show "\<exists>rs. crack_by_workfactor_group_parallel checkpw cpus entries word_list num_processes = Inr rs
           \<and> map (\<lambda>r. (result_workfactor r, result_user r)) rs =
               concat (map (\<lambda>key. map (\<lambda>e. (key, user e)) (filter (\<lambda>e. workfactor e = key) entries))
                 (sorted_workfactors entries))"
    if "1 \<le> (case num_processes of None \<Rightarrow> cpus | Some given \<Rightarrow> given)"
    using that by (rule parallel_keys_users)
qed

theorem groups_in_ascending_cost_order_witness:
  "sorted_workfactors sample_entries = [8, 9]
   \<and> mset (rev sample_entries) = mset sample_entries
   \<and> sorted_workfactors (rev sample_entries) = sorted_workfactors sample_entries
   \<and> crack_by_workfactor_group sample_checkpw sample_entries [''aaaaaa'', ''bbbbbb'', ''target''] =
       Inr [\<lparr>result_user = ''Bilbo'', password = Some ''bbbbbb'', attempts = 2, result_workfactor = 8\<rparr>,
            \<lparr>result_user = ''Fili'', password = Some ''target'', attempts = 3, result_workfactor = 9\<rparr>,
            \<lparr>result_user = ''Kili'', password = None, attempts = 3, result_workfactor = 9\<rparr>]
   \<and> sorted (map result_workfactor
        [\<lparr>result_user = ''Bilbo'', password = Some ''bbbbbb'', attempts = 2, result_workfactor = 8\<rparr>,
         \<lparr>result_user = ''Fili'', password = Some ''target'', attempts = 3, result_workfactor = 9\<rparr>,
         \<lparr>result_user = ''Kili'', password = None, attempts = 3, result_workfactor = 9\<rparr>])
   \<and> (1::int) \<le> (case Some 2 of None \<Rightarrow> 4 | Some given \<Rightarrow> given)
   \<and> crack_by_workfactor_group_parallel sample_checkpw 4 sample_entries
        [''aaaaaa'', ''bbbbbb'', ''target''] (Some 2) =
       Inr [\<lparr>result_user = ''Bilbo'', password = Some ''bbbbbb'', attempts = 2, result_workfactor = 8\<rparr>,
            \<lparr>result_user = ''Fili'', password = Some ''target'', attempts = 3, result_workfactor = 9\<rparr>,
            \<lparr>result_user = ''Kili'', password = None, attempts = 3, result_workfactor = 9\<rparr>]
   \<and> map (\<lambda>r. (result_workfactor r, result_user r))
        [\<lparr>result_user = ''Bilbo'', password = Some ''bbbbbb'', attempts = 2, result_workfactor = 8\<rparr>,
         \<lparr>result_user = ''Fili'', password = Some ''target'', attempts = 3, result_workfactor = 9\<rparr>,
         \<lparr>result_user = ''Kili'', password = None, attempts = 3, result_workfactor = 9\<rparr>] =
       concat (map (\<lambda>key. map (\<lambda>e. (key, user e)) (filter (\<lambda>e. workfactor e = key) sample_entries))
         (sorted_workfactors sample_entries))
   \<and> concat (map (\<lambda>key. map (\<lambda>e. (key, user e)) (filter (\<lambda>e. workfactor e = key) sample_entries))
         (sorted_workfactors sample_entries)) = [(8, ''Bilbo''), (9, ''Fili''), (9, ''Kili'')]"
proof -
  let ?wl = "[''aaaaaa'', ''bbbbbb'', ''target'']"
  let ?out = "[\<lparr>result_user = ''Bilbo'', password = Some ''bbbbbb'', attempts = 2, result_workfactor = 8\<rparr>,
            \<lparr>result_user = ''Fili'', password = Some ''target'', attempts = 3, result_workfactor = 9\<rparr>,
            \<lparr>result_user = ''Kili'', password = None, attempts = 3, result_workfactor = 9\<rparr>]"
  note t = groups_in_ascending_cost_order [where entries = sample_entries
      and entries' = "rev sample_entries" and checkpw = sample_checkpw and word_list = ?wl
      and cpus = 4 and num_processes = "Some 2"]
  have v: "sorted_workfactors sample_entries = [8, 9]" by code_simp
  have m: "mset (rev sample_entries) = mset sample_entries" by simp
  note r = t [THEN conjunct2, THEN conjunct2, THEN conjunct1, THEN mp, OF m]
  have s: "crack_by_workfactor_group sample_checkpw sample_entries ?wl = Inr ?out"
    by code_simp
  note o = t [THEN conjunct2, THEN conjunct2, THEN conjunct2, THEN conjunct2, THEN conjunct1,
      THEN spec, THEN mp, OF s]
  have a: "(1::int) \<le> (case Some 2 of None \<Rightarrow> 4 | Some given \<Rightarrow> given)" by simp
  have p: "crack_by_workfactor_group_parallel sample_checkpw 4 sample_entries ?wl (Some 2) = Inr ?out"
    by code_simp
  from t [THEN conjunct2, THEN conjunct2, THEN conjunct2, THEN conjunct2, THEN conjunct2,
      THEN conjunct2, THEN conjunct2, THEN mp, OF a]
  obtain rs where r1: "crack_by_workfactor_group_parallel sample_checkpw 4 sample_entries ?wl (Some 2)
        = Inr rs"
    and r2: "map (\<lambda>r. (result_workfactor r, result_user r)) rs =
        concat (map (\<lambda>key. map (\<lambda>e. (key, user e)) (filter (\<lambda>e. workfactor e = key) sample_entries))
          (sorted_workfactors sample_entries))"
    by (elim exE conjE)
  from r1 p have "rs = ?out" by simp
  with r2 have q: "map (\<lambda>r. (result_workfactor r, result_user r)) ?out =
        concat (map (\<lambda>key. map (\<lambda>e. (key, user e)) (filter (\<lambda>e. workfactor e = key) sample_entries))
          (sorted_workfactors sample_entries))"
    by (simp only:)
  have ev: "concat (map (\<lambda>key. map (\<lambda>e. (key, user e)) (filter (\<lambda>e. workfactor e = key) sample_entries))
         (sorted_workfactors sample_entries)) = [(8, ''Bilbo''), (9, ''Fili''), (9, ''Kili'')]"
    by code_simp
  from v m r s o a p q ev show ?thesis by - (intro conjI, assumption+)
qed

end
